theory Spec2Isabelle
  imports Complex_Main "HOL-Library.Multiset"
begin

chapter \<open>The model of \<open>quick_hull\<close>\<close>

section \<open>Data model\<close>

text \<open>
  The numeric type \<open>value_type\<close> is taken to be an exact ordered field with square
  roots, the reals. A \<open>std::valarray< value_type >\<close> is a list of reals and the
  working matrices (\<open>std::vector< vector >\<close>) are lists of rows.

  A point handle (\<open>point_iterator\<close>) is a value of an arbitrary type \<open>'p\<close> that is
  compared by identity; the externally owned coordinates are read through a function
  \<open>pt :: 'p \<Rightarrow> real list\<close> (the dereference \<open>*it\<close>), which every operation that
  reads coordinates takes as a parameter.  The constant members \<open>dimension_\<close> and
  \<open>eps\<close> are passed as the parameters \<open>d\<close> and \<open>eps\<close>.
\<close>

unbundle bit_operations_syntax

type_synonym vector = "real list"
type_synonym matrix = "real list list"

text \<open>\<open>struct facet\<close>: the members in the order of the source (without the trailing
  underscore of their names, which record syntax does not admit).\<close>

record 'p facet =
  vertices :: "'p list"
  neighbours :: "nat list"
  outside :: "'p list"
  coplanar :: "'p list"
  normal :: vector
  D :: real

section \<open>Arithmetic on vectors\<close>

text \<open>
  \<open>std::inner_product(first1, last1, first2, init)\<close>: the accumulator starts at
  \<open>init\<close> and runs over the first range.  The source reads the second range at the
  same positions; a second range shorter than the first is read past its end there,
  which has no defined behaviour (the model stops).
\<close>

fun inner_product :: "vector \<Rightarrow> vector \<Rightarrow> real \<Rightarrow> real" where
  "inner_product (x # xs) (y # ys) init = inner_product xs ys (init + x * y)"
| "inner_product xs ys init = init"

text \<open>\<open>facet::distance\<close>: the signed distance of a point to the facet's hyperplane.\<close>

definition distance :: "'p facet \<Rightarrow> vector \<Rightarrow> real" where
  "distance fc x = inner_product (normal fc) x (D fc)"

text \<open>
  \<open>std::copy_n(std::cbegin(*p), dimension_, std::begin(row))\<close> into a row of
  \<open>dimension_\<close> entries: the row becomes the first \<open>d\<close> coordinates of the point
  (a point has at least \<open>d\<close> coordinates).
\<close>

definition copy_point :: "nat \<Rightarrow> ('p \<Rightarrow> vector) \<Rightarrow> 'p \<Rightarrow> vector" where
  "copy_point d pt p = take d (pt p)"

text \<open>The element-wise \<open>valarray\<close> operations \<open>a -= b\<close> and \<open>a -= c * b\<close>.\<close>

definition vsub :: "vector \<Rightarrow> vector \<Rightarrow> vector" where
  "vsub a b = map2 (\<lambda>x y. x - y) a b"

definition vsub_scaled :: "vector \<Rightarrow> real \<Rightarrow> vector \<Rightarrow> vector" where
  "vsub_scaled a c b = map2 (\<lambda>x y. x - c * y) a b"

section \<open>The linear-algebra kernel\<close>

text \<open>Writing one entry \<open>m[r][c] = x\<close> of a matrix.\<close>

definition set_entry :: "matrix \<Rightarrow> nat \<Rightarrow> nat \<Rightarrow> real \<Rightarrow> matrix" where
  "set_entry m r c x = m[r := (m ! r)[c := x]]"

text \<open>
  \<open>matrix_transpose\<close>: for every \<open>r < d\<close> and \<open>r < c < d\<close> the entries
  \<open>shadow_matrix_[c][r]\<close> and \<open>shadow_matrix_[r][c]\<close> are swapped.
\<close>

definition swap_entries :: "matrix \<Rightarrow> nat \<Rightarrow> nat \<Rightarrow> matrix" where
  "swap_entries s r c = set_entry (set_entry s c r (s ! r ! c)) r c (s ! c ! r)"

definition matrix_transpose :: "nat \<Rightarrow> matrix \<Rightarrow> matrix" where
  "matrix_transpose d s =
     fold (\<lambda>r s. fold (\<lambda>c s. swap_entries s r c) [Suc r..<d] s) [0..<d] s"

text \<open>
  \<open>matrix_restore(_identity)\<close>: row \<open>c\<close> of \<open>matrix_\<close> becomes all ones when
  \<open>c = _identity\<close> (the assignment of a scalar to a \<open>valarray\<close> keeps its size) and
  row \<open>c\<close> of \<open>shadow_matrix_\<close> otherwise.
\<close>

definition matrix_restore :: "nat \<Rightarrow> nat \<Rightarrow> matrix \<Rightarrow> matrix \<Rightarrow> matrix" where
  "matrix_restore d identity m s =
     fold (\<lambda>c m. m[c := (if c = identity then replicate (length (m ! c)) 1 else s ! c)])
       [0..<d] m"

text \<open>
  \<open>matrix_sqr(_size)\<close>: \<open>shadow_matrix_[r][c]\<close> becomes the inner product of the rows
  \<open>r\<close> and \<open>c\<close> of \<open>matrix_\<close>, for \<open>r, c < _size\<close>.
\<close>

definition matrix_sqr :: "nat \<Rightarrow> matrix \<Rightarrow> matrix \<Rightarrow> matrix" where
  "matrix_sqr size' m s =
     fold (\<lambda>r s. fold (\<lambda>c s. set_entry s r c (inner_product (m ! r) (m ! c) 0))
                    [0..<size'] s)
       [0..<size'] s"

subsection \<open>The LUP determinant \<open>det\<close>\<close>

text \<open>
  The pivot search of step \<open>i\<close>: \<open>max_\<close> starts at \<open>abs(m[i][i])\<close> with
  \<open>pivot = i\<close>, and every \<open>p\<close> with \<open>i < p < n\<close> whose \<open>abs(m[p][i])\<close> is
  strictly larger takes over.
\<close>

definition find_pivot :: "matrix \<Rightarrow> nat \<Rightarrow> nat \<Rightarrow> real \<times> nat" where
  "find_pivot m i n =
     fold (\<lambda>p (max', pivot). let y = \<bar>m ! p ! i\<bar> in
                               if max' < y then (y, p) else (max', pivot))
       [Suc i..<n] (\<bar>m ! i ! i\<bar>, i)"

text \<open>\<open>ri_.swap(_matrix[pivot])\<close>: the rows \<open>i\<close> and \<open>pivot\<close> change places.\<close>

definition swap_rows :: "matrix \<Rightarrow> nat \<Rightarrow> nat \<Rightarrow> matrix" where
  "swap_rows m i pivot = m[i := m ! pivot, pivot := m ! i]"

text \<open>
  The rest of step \<open>i\<close> on the matrix, once the pivot row is in place: the entries
  below the diagonal in column \<open>i\<close> are divided by the diagonal entry \<open>dia_\<close>, then
  every row \<open>j > i\<close> loses \<open>m[j][i]\<close> times row \<open>i\<close> in the columns \<open>k > i\<close>.
\<close>

definition scale_column :: "nat \<Rightarrow> nat \<Rightarrow> matrix \<Rightarrow> matrix" where
  "scale_column n i m =
     fold (\<lambda>j m. set_entry m j i (m ! j ! i / (m ! i ! i))) [Suc i..<n] m"

definition eliminate :: "nat \<Rightarrow> nat \<Rightarrow> matrix \<Rightarrow> matrix" where
  "eliminate n i m =
     fold (\<lambda>j m. fold (\<lambda>k m. set_entry m j k (m ! j ! k - m ! j ! i * m ! i ! k))
                    [Suc i..<n] m)
       [Suc i..<n] m"

text \<open>
  The loop of \<open>det(_matrix, _dimension)\<close> from step \<open>i\<close> on, with the accumulated
  \<open>det_\<close>.  The matrix is worked on in place, so it is returned with the value.
\<close>

function det_loop :: "real \<Rightarrow> nat \<Rightarrow> nat \<Rightarrow> real \<Rightarrow> matrix \<Rightarrow> real \<times> matrix" where
  "det_loop eps n i det' m =
     (if i < n then
        (case find_pivot m i n of (max', pivot) \<Rightarrow>
           if \<not> eps < max' then (0, m)
           else
             let det1 = (if pivot \<noteq> i then - det' else det');
                 m1 = (if pivot \<noteq> i then swap_rows m i pivot else m);
                 dia = m1 ! i ! i;
                 m2 = scale_column n i m1;
                 det2 = det1 * dia;
                 m3 = eliminate n i m2
             in det_loop eps n (Suc i) det2 m3)
      else (det', m))"
  by pat_completeness auto
termination
  by (relation "measure (\<lambda>(eps, n, i, det', m). n - i)") auto

declare det_loop.simps [simp del]

definition det :: "real \<Rightarrow> matrix \<Rightarrow> nat \<Rightarrow> real \<times> matrix" where
  "det eps m n = det_loop eps n 0 1 m"

section \<open>The hyperplane fitter\<close>

text \<open>
  \<open>set_hyperplane_equation(_facet)\<close> works on the facet it is given by reference and
  on the two working matrices, and returns all three.  The vertices go into the rows
  of \<open>shadow_matrix_\<close>, which is transposed and copied to \<open>matrix_\<close>;
  \<open>D = -det()\<close>; for every axis \<open>i\<close>, \<open>matrix_restore(i)\<close> and
  \<open>normal_[i] = det()\<close>, with \<open>N\<close> summing the squares; at last the normal and
  \<open>D\<close> are divided by \<open>sqrt(N)\<close>.  The closing \<open>assert\<close>, that the signed
  distance of \<open>inner_point_\<close> to the fitted hyperplane is negative, is a check of
  a debug build and is not part of the computation; when it holds is stated with the
  fit.
\<close>

definition load_vertices :: "nat \<Rightarrow> ('p \<Rightarrow> vector) \<Rightarrow> 'p list \<Rightarrow> matrix \<Rightarrow> matrix" where
  "load_vertices d pt vs s = fold (\<lambda>r s. s[r := copy_point d pt (vs ! r)]) [0..<d] s"

definition normal_loop ::
  "nat \<Rightarrow> real \<Rightarrow> matrix \<Rightarrow> vector \<times> real \<times> matrix \<Rightarrow> vector \<times> real \<times> matrix" where
  "normal_loop d eps s =
     fold (\<lambda>i (nrm, N, m).
             case det eps (matrix_restore d i m s) d of
               (n, m') \<Rightarrow> (nrm[i := n], N + n * n, m'))
       [0..<d]"

definition set_hyperplane_equation ::
  "nat \<Rightarrow> real \<Rightarrow> ('p \<Rightarrow> vector) \<Rightarrow> 'p facet \<Rightarrow> matrix \<Rightarrow> matrix
     \<Rightarrow> 'p facet \<times> matrix \<times> matrix" where
  "set_hyperplane_equation d eps pt fc m s =
     (let s1 = matrix_transpose d (load_vertices d pt (vertices fc) s) in
      case det eps s1 d of (dt, m1) \<Rightarrow>
      case normal_loop d eps s1 (normal fc, 0, m1) of (nrm, N, m2) \<Rightarrow>
        (fc\<lparr>normal := map (\<lambda>x. x / sqrt N) nrm, D := (- dt) / sqrt N\<rparr>, m2, s1))"

section \<open>The affine-basis selector\<close>

subsection \<open>\<open>orthonormalize\<close>\<close>

text \<open>The first loop: row \<open>r\<close> of \<open>shadow_matrix_\<close> becomes vertex \<open>r\<close> minus the origin.\<close>

definition load_affine ::
  "nat \<Rightarrow> ('p \<Rightarrow> vector) \<Rightarrow> 'p list \<Rightarrow> nat \<Rightarrow> vector \<Rightarrow> matrix \<Rightarrow> matrix" where
  "load_affine d pt affine_space rank' origin s =
     fold (\<lambda>r s. s[r := vsub (copy_point d pt (affine_space ! r)) origin]) [0..<rank'] s"

text \<open>Sums over the columns \<open>k\<close> with \<open>i \<le> k < d\<close> of one or two rows.\<close>

definition tail_sqr :: "nat \<Rightarrow> nat \<Rightarrow> vector \<Rightarrow> real" where
  "tail_sqr d i q = fold (\<lambda>j acc. acc + q ! j * q ! j) [i..<d] 0"

definition tail_dot :: "nat \<Rightarrow> nat \<Rightarrow> vector \<Rightarrow> vector \<Rightarrow> real" where
  "tail_dot d i a b = fold (\<lambda>k acc. acc + a ! k * b ! k) [i..<d] 0"

text \<open>\<open>b[k] -= a[k] * s\<close> for \<open>i \<le> k < d\<close>.\<close>

definition tail_reflect :: "nat \<Rightarrow> nat \<Rightarrow> vector \<Rightarrow> real \<Rightarrow> vector \<Rightarrow> vector" where
  "tail_reflect d i a s' b = fold (\<lambda>k b. b[k := b ! k - a ! k * s']) [i..<d] b"

text \<open>
  The Householder loop from column \<open>i\<close> on.  It leaves by \<open>return false\<close> when the
  norm of the sub-column, or the factor, is not above \<open>eps\<close>; the matrix is then left
  as it is at that moment.
\<close>

function householder :: "nat \<Rightarrow> real \<Rightarrow> nat \<Rightarrow> nat \<Rightarrow> matrix \<Rightarrow> bool \<times> matrix" where
  "householder d eps rank' i s =
     (if i < rank' then
        (let qri = s ! i;
             norm' = sqrt (tail_sqr d i qri)
         in if \<not> eps < norm' then (False, s)
            else
              let qrii = qri ! i;
                  sign' = (0 < qrii);
                  factor = norm' * (norm' + (if sign' then qrii else - qrii))
              in if \<not> eps < factor then (False, s)
                 else
                   let factor1 = 1 / sqrt factor;
                       qri1 = qri[i := (if sign' then qrii + norm' else qrii - norm')];
                       qri2 = fold (\<lambda>k q. q[k := q ! k * factor1]) [i..<d] qri1;
                       s1 = s[i := qri2];
                       s2 = fold (\<lambda>j s. s[j := tail_reflect d i qri2
                                               (tail_dot d i qri2 (s ! j)) (s ! j)])
                              [Suc i..<rank'] s1
                   in householder d eps rank' (Suc i) s2)
      else (True, s))"
  by pat_completeness auto
termination
  by (relation "measure (\<lambda>(d, eps, rank', i, s). rank' - i)") auto

declare householder.simps [simp del]

definition orthonormalize ::
  "nat \<Rightarrow> real \<Rightarrow> ('p \<Rightarrow> vector) \<Rightarrow> 'p list \<Rightarrow> nat \<Rightarrow> vector \<Rightarrow> matrix \<Rightarrow> bool \<times> matrix" where
  "orthonormalize d eps pt affine_space rank' origin s =
     householder d eps rank' 0 (load_affine d pt affine_space rank' origin s)"

subsection \<open>\<open>forward_transformation\<close>\<close>

text \<open>
  Row \<open>i\<close> of \<open>matrix_\<close> is set to the unit vector \<open>i\<close>, and the reflectors packed
  in \<open>shadow_matrix_\<close> are applied to it for \<open>j = rank - 1\<close> down to \<open>0\<close>.
\<close>

definition forward_transformation :: "nat \<Rightarrow> nat \<Rightarrow> matrix \<Rightarrow> matrix \<Rightarrow> matrix" where
  "forward_transformation d rank' s m =
     fold (\<lambda>i m.
             let qi = (replicate (length (m ! i)) 0)[i := 1];
                 qi' = fold (\<lambda>j qi. tail_reflect d j (s ! j) (tail_dot d j (s ! j) qi) qi)
                         (rev [0..<rank']) qi
             in m[i := qi'])
       [0..<rank'] m"

section \<open>The state of a hull build\<close>

text \<open>
  A node of the \<open>std::multimap\<close> \<open>ranking_\<close>: its address (what an iterator to it
  holds), its key \<open>first\<close> and its value \<open>second\<close>.
\<close>

record rank_node =
  address :: nat
  first :: real
  second :: nat

text \<open>
  A \<open>ridge\<close>: the index \<open>f\<close> of its facet (\<open>facet_\<close> is the reference
  \<open>facets_[f]\<close>), the omitted vertex position \<open>v\<close> and the precomputed \<open>hash_\<close>.
\<close>

record ridge =
  ridge_f :: nat
  ridge_v :: nat
  ridge_hash :: nat

text \<open>
  The data members of \<open>quick_hull\<close> that the operations below work on.  The member
  \<open>outside_\<close> of the hull is \<open>outside_pool\<close> here (a facet has a member of the
  same name).  \<open>ranking_\<close> is kept sorted by key; \<open>ranking_meta_\<close>, an
  \<open>unordered_map\<close> from facet index to iterator, is an association list with
  distinct keys; \<open>unique_ridges_\<close>, an \<open>unordered_set\<close>, is a list.
\<close>

record 'p quick_hull =
  matrix :: matrix
  shadow_matrix :: matrix
  facets :: "'p facet list"
  removed_facets :: "nat list"
  ranking :: "rank_node list"
  ranking_meta :: "(nat \<times> nat) list"
  outside_pool :: "'p list"
  unique_ridges :: "ridge list"
  vertices_hashes :: "nat list"
  inner_point :: vector

subsection \<open>\<open>steal_best\<close>\<close>

text \<open>
  The loop of \<open>steal_best\<close> over the outside pool.  \<open>apex_\<close> is the first and
  \<open>projection_\<close> the last row of \<open>shadow_matrix_\<close>; \<open>origin_\<close> is row \<open>rank_\<close>
  and the rows \<open>i < rank_\<close> of \<open>matrix_\<close> are the \<open>qi_\<close>.  The iterator
  \<open>furthest\<close> is the position in the pool, \<open>None\<close> for the end iterator.
\<close>

definition project :: "nat \<Rightarrow> matrix \<Rightarrow> vector \<Rightarrow> vector" where
  "project rank' m apex =
     fold (\<lambda>i projection. vsub_scaled projection (inner_product apex (m ! i) 0) (m ! i))
       [0..<rank'] apex"

fun furthest_loop ::
  "nat \<Rightarrow> ('p \<Rightarrow> vector) \<Rightarrow> nat \<Rightarrow> matrix \<Rightarrow> 'p list \<Rightarrow> nat
     \<Rightarrow> real \<times> nat option \<times> matrix \<Rightarrow> real \<times> nat option \<times> matrix" where
  "furthest_loop d pt rank' m [] pos acc = acc"
| "furthest_loop d pt rank' m (p # ps) pos (distance', furthest, s) =
     (let apex = vsub (copy_point d pt p) (m ! rank');
          s1 = s[0 := apex];
          projection = project rank' m apex;
          projection2 = map2 (\<lambda>x y. x * y) projection projection;
          s2 = s1[length s1 - 1 := projection2];
          d' = sqrt (sum_list projection2)
      in furthest_loop d pt rank' m ps (Suc pos)
           (if distance' < d' then (d', Some pos, s2) else (distance', furthest, s2)))"

text \<open>
  \<open>steal_best(_basis)\<close> returns its verdict, the basis and the hull.  On success the
  furthest point is spliced from the pool to the end of the basis.
\<close>

definition steal_best ::
  "nat \<Rightarrow> real \<Rightarrow> ('p \<Rightarrow> vector) \<Rightarrow> 'p list \<Rightarrow> 'p quick_hull
     \<Rightarrow> bool \<times> 'p list \<times> 'p quick_hull" where
  "steal_best d eps pt basis h =
     (let rank' = length basis - 1;
          m1 = (matrix h)[rank' := copy_point d pt (last basis)]
      in case orthonormalize d eps pt basis rank' (m1 ! rank') (shadow_matrix h) of
           (ok, s1) \<Rightarrow>
             if \<not> ok then (False, basis, h\<lparr>matrix := m1, shadow_matrix := s1\<rparr>)
             else
               let m2 = forward_transformation d rank' s1 m1 in
               case furthest_loop d pt rank' m2 (outside_pool h) 0 (0, None, s1) of
                 (distance', furthest, s2) \<Rightarrow>
                   (case furthest of
                      None \<Rightarrow> (False, basis, h\<lparr>matrix := m2, shadow_matrix := s2\<rparr>)
                    | Some k \<Rightarrow>
                        (True, basis @ [outside_pool h ! k],
                         h\<lparr>matrix := m2, shadow_matrix := s2,
                           outside_pool := take k (outside_pool h)
                                             @ drop (Suc k) (outside_pool h)\<rparr>)))"

subsection \<open>\<open>get_affine_basis\<close>\<close>

text \<open>The loop \<open>for (i = 0; i < dimension_; ++i)\<close> with its early \<open>return basis_\<close>.\<close>

fun steal_loop ::
  "nat \<Rightarrow> real \<Rightarrow> ('p \<Rightarrow> vector) \<Rightarrow> nat \<Rightarrow> 'p list \<Rightarrow> 'p quick_hull
     \<Rightarrow> 'p list \<times> 'p quick_hull" where
  "steal_loop d eps pt 0 basis h = (basis, h)"
| "steal_loop d eps pt (Suc k) basis h =
     (case steal_best d eps pt basis h of
        (ok, basis', h') \<Rightarrow>
          if \<not> ok then (basis', h') else steal_loop d eps pt k basis' h')"

text \<open>
  \<open>get_affine_basis()\<close>.  The first splice takes the front of the pool; on an empty
  pool it dereferences the end iterator, which has no defined behaviour
  (\<open>None\<close>).
\<close>

definition get_affine_basis ::
  "nat \<Rightarrow> real \<Rightarrow> ('p \<Rightarrow> vector) \<Rightarrow> 'p quick_hull \<Rightarrow> ('p list \<times> 'p quick_hull) option" where
  "get_affine_basis d eps pt h =
     (case outside_pool h of
        [] \<Rightarrow> None
      | p # ps \<Rightarrow>
          (case steal_best d eps pt [p] (h\<lparr>outside_pool := ps\<rparr>) of
             (ok, basis, h1) \<Rightarrow>
               if \<not> ok then Some (basis, h1)
               else Some (steal_loop d eps pt d (tl basis)
                            (h1\<lparr>outside_pool := hd basis # outside_pool h1\<rparr>))))"

section \<open>Ranking\<close>

text \<open>
  \<open>ranking_.emplace(key, f)\<close> allocates a node at an address no node of the map
  has, and links it after the last node whose key is not larger.
\<close>

definition fresh_address :: "rank_node list \<Rightarrow> nat" where
  "fresh_address r = fold (\<lambda>n a. max (Suc (address n)) a) r 0"

fun multimap_emplace :: "rank_node \<Rightarrow> rank_node list \<Rightarrow> rank_node list" where
  "multimap_emplace n [] = [n]"
| "multimap_emplace n (x # xs) =
     (if first n < first x then n # x # xs else x # multimap_emplace n xs)"

text \<open>\<open>ranking_meta_.emplace(f, it)\<close> leaves the map as it is when the key is there.\<close>

definition meta_emplace :: "nat \<Rightarrow> nat \<Rightarrow> (nat \<times> nat) list \<Rightarrow> (nat \<times> nat) list" where
  "meta_emplace f it meta = (if f \<in> fst ` set meta then meta else meta @ [(f, it)])"

definition rank :: "real \<Rightarrow> real \<Rightarrow> nat \<Rightarrow> 'p quick_hull \<Rightarrow> 'p quick_hull" where
  "rank eps orientation f h =
     (if eps < orientation then
        (let it = fresh_address (ranking h) in
         h\<lparr>ranking := multimap_emplace \<lparr>address = it, first = orientation, second = f\<rparr>
                         (ranking h),
           ranking_meta := meta_emplace f it (ranking_meta h)\<rparr>)
      else h)"

definition unrank :: "nat \<Rightarrow> 'p quick_hull \<Rightarrow> 'p quick_hull" where
  "unrank f h =
     (case map_of (ranking_meta h) f of
        Some it \<Rightarrow>
          h\<lparr>ranking := filter (\<lambda>n. address n \<noteq> it) (ranking h),
            ranking_meta := filter (\<lambda>e. fst e \<noteq> f) (ranking_meta h),
            removed_facets := removed_facets h @ [f]\<rparr>
      | None \<Rightarrow> h\<lparr>removed_facets := removed_facets h @ [f]\<rparr>)"

section \<open>The partitioner\<close>

text \<open>
  The loop of \<open>partition(_facet)\<close> over the outside pool, with the running
  \<open>distance_\<close>.  A point above \<open>eps\<close> is spliced out of the pool, to the front of
  the facet's outside list when it is further than all before it and to its back
  otherwise; a point not below \<open>-eps\<close> is pushed on the coplanar deque and stays in
  the pool, as does every other point.  The result is \<open>distance_\<close>, the facet and the
  pool.
\<close>

fun partition_loop ::
  "real \<Rightarrow> ('p \<Rightarrow> vector) \<Rightarrow> 'p list \<Rightarrow> real \<Rightarrow> 'p facet \<Rightarrow> real \<times> 'p facet \<times> 'p list" where
  "partition_loop eps pt [] distance' fc = (distance', fc, [])"
| "partition_loop eps pt (p # ps) distance' fc =
     (let d' = distance fc (pt p) in
      if eps < d' then
        (if distance' < d' then
           partition_loop eps pt ps d' (fc\<lparr>outside := p # outside fc\<rparr>)
         else
           partition_loop eps pt ps distance' (fc\<lparr>outside := outside fc @ [p]\<rparr>))
      else if \<not> d' < - eps then
        (case partition_loop eps pt ps distance' (fc\<lparr>coplanar := coplanar fc @ [p]\<rparr>) of
           (r, fc', pool) \<Rightarrow> (r, fc', p # pool))
      else
        (case partition_loop eps pt ps distance' fc of
           (r, fc', pool) \<Rightarrow> (r, fc', p # pool)))"

definition partition_outside ::
  "real \<Rightarrow> ('p \<Rightarrow> vector) \<Rightarrow> 'p facet \<Rightarrow> 'p list \<Rightarrow> real \<times> 'p facet \<times> 'p list" where
  "partition_outside eps pt fc pool = partition_loop eps pt pool 0 fc"

section \<open>The ridge matcher\<close>

text \<open>
  \<open>ridge::operator ==\<close>: every vertex handle of the left facet that differs from the
  left omitted handle \<open>lskip\<close> has to be found among the handles of the right facet
  that differ from the right omitted handle \<open>rskip\<close>.
\<close>

definition ridge_eq :: "'p facet list \<Rightarrow> ridge \<Rightarrow> ridge \<Rightarrow> bool" where
  "ridge_eq fs lhs rhs =
     (let lvs = vertices (fs ! ridge_f lhs);
          rvs = vertices (fs ! ridge_f rhs);
          lskip = lvs ! ridge_v lhs;
          rskip = rvs ! ridge_v rhs
      in list_all (\<lambda>l. l \<noteq> lskip \<longrightarrow> list_ex (\<lambda>r. r \<noteq> rskip \<and> l = r) rvs) lvs)"

text \<open>
  Modelled from the spec: the lookup of \<open>std::unordered_set< ridge, ridge_hash >\<close>,
  which is code of the standard library.  Inserting a record looks in the bucket of
  its hash for a stored record that the new record compares equal to by
  \<open>operator ==\<close>.  How a hash is mapped to its bucket, and whether the hash codes
  themselves are compared before \<open>operator ==\<close> is called, is left to the
  library: \<open>bucket\<close> is a parameter (the identity when the hash codes are
  compared, the remainder by the number of buckets when they are not).
\<close>

definition find_ridge ::
  "(nat \<Rightarrow> nat) \<Rightarrow> 'p facet list \<Rightarrow> ridge list \<Rightarrow> ridge \<Rightarrow> ridge option" where
  "find_ridge bucket fs urs r =
     find (\<lambda>e. bucket (ridge_hash e) = bucket (ridge_hash r) \<and> ridge_eq fs r e) urs"

text \<open>
  The first loop of \<open>find_adjacent_facets\<close>: the identity hashes of the vertices
  other than \<open>_skip\<close> are stored in \<open>vertices_hashes_\<close> and XOR-ed into
  \<open>ridge_hash_\<close>.  \<open>point_hash\<close> is \<open>point_hash_\<close> applied to the address of
  the point; a \<open>size_t\<close> is a natural number here, XOR does not overflow.
\<close>

definition hash_vertices ::
  "nat \<Rightarrow> ('p \<Rightarrow> nat) \<Rightarrow> 'p list \<Rightarrow> nat \<Rightarrow> nat list \<Rightarrow> nat \<times> nat list" where
  "hash_vertices d point_hash vs skip vh =
     fold (\<lambda>v (ridge_hash', vh).
             if v \<noteq> skip then
               (let hash' = point_hash (vs ! v) in (ridge_hash' XOR hash', vh[v := hash']))
             else (ridge_hash', vh))
       [0..<d] (0, vh)"

text \<open>
  The body of the second loop for one \<open>v \<noteq> _skip\<close>: the record
  \<open>{_facet, f, v, hash}\<close> is inserted; when an equal record \<open>ridge_\<close> is already
  there, \<open>ridge_.facet_.neighbours_[ridge_.v] = f\<close>,
  \<open>_facet.neighbours_[v] = ridge_.f\<close>, and the stored record is erased.
\<close>

definition set_neighbour :: "'p facet list \<Rightarrow> nat \<Rightarrow> nat \<Rightarrow> nat \<Rightarrow> 'p facet list" where
  "set_neighbour fs f v g = fs[f := (fs ! f)\<lparr>neighbours := (neighbours (fs ! f))[v := g]\<rparr>]"

definition link_ridge ::
  "(nat \<Rightarrow> nat) \<Rightarrow> nat \<Rightarrow> nat \<Rightarrow> nat \<Rightarrow> 'p facet list \<times> ridge list
     \<Rightarrow> 'p facet list \<times> ridge list" where
  "link_ridge bucket f v hash' st =
     (case st of (fs, urs) \<Rightarrow>
        let r = \<lparr>ridge_f = f, ridge_v = v, ridge_hash = hash'\<rparr> in
        case find_ridge bucket fs urs r of
          None \<Rightarrow> (fs, urs @ [r])
        | Some e \<Rightarrow>
            (set_neighbour (set_neighbour fs (ridge_f e) (ridge_v e) f) f v (ridge_f e),
             remove1 e urs))"

definition find_adjacent_facets ::
  "nat \<Rightarrow> ('p \<Rightarrow> nat) \<Rightarrow> (nat \<Rightarrow> nat) \<Rightarrow> nat \<Rightarrow> nat \<Rightarrow> 'p quick_hull \<Rightarrow> 'p quick_hull" where
  "find_adjacent_facets d point_hash bucket f skip h =
     (case hash_vertices d point_hash (vertices (facets h ! f)) skip (vertices_hashes h) of
        (ridge_hash', vh) \<Rightarrow>
          (case fold (\<lambda>v st. if v \<noteq> skip
                             then link_ridge bucket f v (ridge_hash' XOR vh ! v) st
                             else st)
                  [0..<d] (facets h, unique_ridges h) of
             (fs, urs) \<Rightarrow> h\<lparr>facets := fs, unique_ridges := urs, vertices_hashes := vh\<rparr>))"

section \<open>The driver: hypervolume and the initial simplex\<close>

text \<open>
  \<open>hypervolume(first, last)\<close>: \<open>ps\<close> are the handles of the range
  \<open>[first, last)\<close> and \<open>lst\<close> is the handle at \<open>last\<close>.  The source asserts that
  the range has at most \<open>dimension_\<close> handles.
\<close>

definition load_differences ::
  "nat \<Rightarrow> ('p \<Rightarrow> vector) \<Rightarrow> 'p list \<Rightarrow> vector \<Rightarrow> matrix \<Rightarrow> matrix" where
  "load_differences d pt ps origin m =
     fold (\<lambda>r m. m[r := vsub (copy_point d pt (ps ! r)) origin]) [0..<length ps] m"

definition hypervolume ::
  "nat \<Rightarrow> real \<Rightarrow> ('p \<Rightarrow> vector) \<Rightarrow> 'p list \<Rightarrow> 'p \<Rightarrow> 'p quick_hull \<Rightarrow> real \<times> 'p quick_hull" where
  "hypervolume d eps pt ps lst h =
     (if ps = [] then (0, h)
      else
        let rank' = length ps;
            origin = copy_point d pt lst;
            s1 = (shadow_matrix h)[length (shadow_matrix h) - 1 := origin];
            m1 = load_differences d pt ps origin (matrix h)
        in if rank' = d then
             (case det eps m1 d of
                (v, m2) \<Rightarrow> (v, h\<lparr>matrix := m2, shadow_matrix := s1\<rparr>))
           else
             (case det eps (matrix_sqr rank' m1 s1) rank' of
                (v, s2) \<Rightarrow> (sqrt v, h\<lparr>matrix := m1, shadow_matrix := s2\<rparr>)))"






section \<open>The facet store: \<open>replace_neighbour\<close>\<close>

text \<open>
  The range-based loop of \<open>replace_neighbour\<close> over the neighbours of one facet: the
  first entry equal to \<open>from\<close> is overwritten and the loop is left by \<open>return\<close>.
\<close>

fun replace_first :: "nat \<Rightarrow> nat \<Rightarrow> nat list \<Rightarrow> nat list" where
  "replace_first from to [] = []"
| "replace_first from to (n # ns) =
     (if n = from then to # ns else n # replace_first from to ns)"

text \<open>
  \<open>replace_neighbour(f, _from, _to)\<close>.  The store is only indexed inside the guard
  \<open>_from != _to\<close>; indexing the deque past its end has no defined behaviour in the
  source, which the model reports as \<open>None\<close>.
\<close>

definition replace_neighbour ::
  "'p facet list \<Rightarrow> nat \<Rightarrow> nat \<Rightarrow> nat \<Rightarrow> 'p facet list option" where
  "replace_neighbour fs f from to =
     (if from \<noteq> to then
        (if f < length fs then
           Some (fs[f := (fs ! f)\<lparr>neighbours :=
                   replace_first from to (neighbours (fs ! f))\<rparr>])
         else None)
      else Some fs)"

text \<open>The position of the first entry equal to \<open>x\<close>, when there is one.\<close>

fun first_index :: "nat \<Rightarrow> nat list \<Rightarrow> nat option" where
  "first_index x [] = None"
| "first_index x (n # ns) =
     (if n = x then Some 0 else map_option Suc (first_index x ns))"

section \<open>Construction\<close>

text \<open>
  The constructor \<open>quick_hull(_dimension, _eps)\<close>: the working matrices are
  \<open>d \<times> d\<close>, \<open>vertices_hashes_\<close> and \<open>inner_point_\<close> have \<open>d\<close> entries, and
  every container is empty.
\<close>

definition quick_hull_init :: "nat \<Rightarrow> 'p quick_hull" where
  "quick_hull_init d =
     \<lparr>matrix = replicate d (replicate d 0), shadow_matrix = replicate d (replicate d 0),
      facets = [], removed_facets = [], ranking = [], ranking_meta = [],
      outside_pool = [], unique_ridges = [], vertices_hashes = replicate d 0,
      inner_point = replicate d 0\<rparr>"

section \<open>Notions used to state the properties\<close>

text \<open>
  The (distance, facet index) pairs that \<open>ranking_\<close> holds, and the pairs that
  \<open>ranking_meta_\<close> describes: for an entry \<open>(f, it)\<close> the key of the node the
  iterator \<open>it\<close> points to, with \<open>f\<close>.
\<close>

definition forward_pairs :: "'p quick_hull \<Rightarrow> (real \<times> nat) list" where
  "forward_pairs h = map (\<lambda>n. (first n, second n)) (ranking h)"

definition inverse_pairs :: "'p quick_hull \<Rightarrow> (real \<times> nat) list" where
  "inverse_pairs h =
     concat (map (\<lambda>(f, it). map (\<lambda>n. (first n, f)) (filter (\<lambda>n. address n = it) (ranking h)))
               (ranking_meta h))"

text \<open>
  The states reachable from an empty ranking by \<open>rank\<close> and \<open>unrank\<close>, where
  \<open>rank\<close> is not applied to a facet index that the ranking holds.
\<close>

inductive reachable :: "real \<Rightarrow> 'p quick_hull \<Rightarrow> bool" for eps :: real where
  reachable_empty: "ranking h = [] \<Longrightarrow> ranking_meta h = [] \<Longrightarrow> reachable eps h"
| reachable_rank: "reachable eps h \<Longrightarrow> f \<notin> second ` set (ranking h)
     \<Longrightarrow> reachable eps (rank eps x f h)"
| reachable_unrank: "reachable eps h \<Longrightarrow> reachable eps (unrank f h)"

text \<open>
  The link between the two structures: the entries of \<open>ranking_meta_\<close> are, as a
  multiset, the pairs of facet index and address of the nodes of \<open>ranking_\<close>, and
  addresses and keys are distinct.
\<close>

definition linked :: "'p quick_hull \<Rightarrow> bool" where
  "linked h \<longleftrightarrow>
     mset (map (\<lambda>n. (second n, address n)) (ranking h)) = mset (ranking_meta h)
     \<and> distinct (map address (ranking h))
     \<and> distinct (map fst (ranking_meta h))"

text \<open>
  The state of the loop of \<open>partition\<close>: no handle of the outside list is further
  than the running \<open>distance_\<close> \<open>dl\<close>, which is the distance of the front handle,
  and is not above \<open>eps\<close> while the list is empty.
\<close>

definition furthest_first :: "('p \<Rightarrow> real) \<Rightarrow> real \<Rightarrow> real \<Rightarrow> 'p list \<Rightarrow> bool" where
  "furthest_first g eps dl out \<longleftrightarrow>
     (\<forall>q \<in> set out. g q \<le> dl) \<and> (if out = [] then dl \<le> eps else g (hd out) = dl)"

text \<open>
  The verdicts of the invocations of \<open>steal_best\<close> that \<open>get_affine_basis\<close>
  makes, in order: the recursion is that of \<open>get_affine_basis\<close> and
  \<open>steal_loop\<close>, which stop at the first \<open>false\<close>.
\<close>

fun steal_loop_verdicts ::
  "nat \<Rightarrow> real \<Rightarrow> ('p \<Rightarrow> vector) \<Rightarrow> nat \<Rightarrow> 'p list \<Rightarrow> 'p quick_hull \<Rightarrow> bool list" where
  "steal_loop_verdicts d eps pt 0 basis h = []"
| "steal_loop_verdicts d eps pt (Suc k) basis h =
     (case steal_best d eps pt basis h of
        (ok, basis', h') \<Rightarrow>
          ok # (if \<not> ok then [] else steal_loop_verdicts d eps pt k basis' h'))"

definition steal_verdicts ::
  "nat \<Rightarrow> real \<Rightarrow> ('p \<Rightarrow> vector) \<Rightarrow> 'p quick_hull \<Rightarrow> bool list" where
  "steal_verdicts d eps pt h =
     (case outside_pool h of
        [] \<Rightarrow> []
      | p # ps \<Rightarrow>
          (case steal_best d eps pt [p] (h\<lparr>outside_pool := ps\<rparr>) of
             (ok, basis, h1) \<Rightarrow>
               ok # (if \<not> ok then []
                     else steal_loop_verdicts d eps pt d (tl basis)
                            (h1\<lparr>outside_pool := hd basis # outside_pool h1\<rparr>))))"

text \<open>
  Two hull states that differ at most in the working matrices and the outside pool.
\<close>

definition same_but_scratch :: "'p quick_hull \<Rightarrow> 'p quick_hull \<Rightarrow> bool" where
  "same_but_scratch h h' \<longleftrightarrow>
     h' = h\<lparr>matrix := matrix h', shadow_matrix := shadow_matrix h',
            outside_pool := outside_pool h'\<rparr>"

text \<open>
  The elimination steps of the LUP determinant in the words of its description: at
  step \<open>i\<close> the maximum absolute value over the active column at or below the
  diagonal, and the first row that attains it.
\<close>

definition column_max :: "matrix \<Rightarrow> nat \<Rightarrow> nat \<Rightarrow> real" where
  "column_max m i n = Max ((\<lambda>p. \<bar>m ! p ! i\<bar>) ` {i..<n})"

definition pivot_row :: "matrix \<Rightarrow> nat \<Rightarrow> nat \<Rightarrow> nat" where
  "pivot_row m i n = hd (filter (\<lambda>p. \<bar>m ! p ! i\<bar> = column_max m i n) [i..<n])"

text \<open>
  The record of one elimination step (the maximum found, whether rows were swapped,
  the diagonal entry selected as pivot), and the steps performed from step \<open>i\<close>
  on: the list ends with the step that declares the matrix singular, or after step
  \<open>n - 1\<close>.
\<close>

record lup_step =
  step_max :: real
  step_swapped :: bool
  step_pivot :: real

function lup_steps :: "real \<Rightarrow> nat \<Rightarrow> nat \<Rightarrow> matrix \<Rightarrow> lup_step list" where
  "lup_steps eps n i m =
     (if i < n then
        (let pivot = pivot_row m i n;
             m1 = (if pivot \<noteq> i then swap_rows m i pivot else m)
         in \<lparr>step_max = column_max m i n, step_swapped = (pivot \<noteq> i),
               step_pivot = m1 ! i ! i\<rparr>
            # (if \<not> eps < column_max m i n then []
               else lup_steps eps n (Suc i) (eliminate n i (scale_column n i m1))))
      else [])"
  by pat_completeness auto
termination
  by (relation "measure (\<lambda>(eps, n, i, m). n - i)") auto

declare lup_steps.simps [simp del]

text \<open>
  The ridge of a record in the words of its description: the vertex handles of the
  facet with the omitted position excluded; two records match when their hashes are
  equal and their handles are equal as multisets.
\<close>

definition ridge_handles :: "'p facet list \<Rightarrow> ridge \<Rightarrow> 'p list" where
  "ridge_handles fs r =
     (let vs = vertices (fs ! ridge_f r)
      in take (ridge_v r) vs @ drop (Suc (ridge_v r)) vs)"

definition ridges_match :: "'p facet list \<Rightarrow> ridge \<Rightarrow> ridge \<Rightarrow> bool" where
  "ridges_match fs l r \<longleftrightarrow>
     ridge_hash l = ridge_hash r \<and> mset (ridge_handles fs l) = mset (ridge_handles fs r)"

text \<open>
  A record of a facet of the store that is a simplex: \<open>d\<close> pairwise distinct vertex
  handles, \<open>d\<close> neighbour entries, and an omitted position below \<open>d\<close>.
\<close>

definition simplex_ridge :: "nat \<Rightarrow> 'p facet list \<Rightarrow> ridge \<Rightarrow> bool" where
  "simplex_ridge d fs r \<longleftrightarrow>
     ridge_f r < length fs \<and> ridge_v r < d
     \<and> length (vertices (fs ! ridge_f r)) = d \<and> distinct (vertices (fs ! ridge_f r))
     \<and> length (neighbours (fs ! ridge_f r)) = d"

text \<open>
  The records that the ridge matcher holds.  \<open>find_adjacent_facets\<close> is called by
  \<open>process_visibles\<close> only, on a new facet that \<open>add_facet\<close> made from the
  vertices of a visible facet with the apex written at the position \<open>_skip\<close>, and
  the set is empty when the round of an apex is over.  So a pending record belongs to
  a simplex of the store, its ridge contains the apex of the round, and its hash is
  the XOR of the identity hashes of the handles of its ridge other than the apex.
\<close>

definition xor_hashes :: "('p \<Rightarrow> nat) \<Rightarrow> 'p list \<Rightarrow> nat" where
  "xor_hashes point_hash xs = fold (\<lambda>p h. h XOR point_hash p) xs 0"

definition pending :: "nat \<Rightarrow> ('p \<Rightarrow> nat) \<Rightarrow> 'p \<Rightarrow> 'p facet list \<Rightarrow> ridge \<Rightarrow> bool" where
  "pending d point_hash apex fs r \<longleftrightarrow>
     simplex_ridge d fs r \<and> apex \<in> set (ridge_handles fs r)
     \<and> ridge_hash r = xor_hashes point_hash (removeAll apex (ridge_handles fs r))"

text \<open>
  Records that matched have been paired and erased: no two records of the set match.
\<close>

definition unmatched :: "'p facet list \<Rightarrow> ridge list \<Rightarrow> bool" where
  "unmatched fs urs \<longleftrightarrow>
     distinct urs \<and> (\<forall>a \<in> set urs. \<forall>b \<in> set urs. ridges_match fs a b \<longrightarrow> a = b)"

text \<open>
  The leading \<open>n \<times> n\<close> block of a matrix, and matrices that have one.
\<close>

definition leading :: "nat \<Rightarrow> matrix \<Rightarrow> matrix" where
  "leading n m = map (take n) (take n m)"

definition has_block :: "nat \<Rightarrow> matrix \<Rightarrow> bool" where
  "has_block n m \<longleftrightarrow> n \<le> length m \<and> (\<forall>i<n. n \<le> length (m ! i))"

text \<open>
  A \<open>d \<times> d\<close> matrix, as the constructor makes the working matrices.
\<close>

definition square :: "nat \<Rightarrow> matrix \<Rightarrow> bool" where
  "square d m \<longleftrightarrow> length m = d \<and> (\<forall>row \<in> set m. length row = d)"

text \<open>
  The difference vectors of the points of a range against the last point as origin,
  coordinate by coordinate, and the Gram matrix of a list of vectors of \<open>d\<close>
  coordinates: its entry at \<open>(r, c)\<close> is the sum over the coordinates of the
  products of the entries of the vectors \<open>r\<close> and \<open>c\<close>.
\<close>

definition difference_rows :: "nat \<Rightarrow> ('p \<Rightarrow> vector) \<Rightarrow> 'p list \<Rightarrow> 'p \<Rightarrow> matrix" where
  "difference_rows d pt ps lst = map (\<lambda>p. map (\<lambda>i. pt p ! i - pt lst ! i) [0..<d]) ps"

definition gram_rows :: "nat \<Rightarrow> matrix \<Rightarrow> matrix" where
  "gram_rows d a = map (\<lambda>x. map (\<lambda>y. \<Sum>k<d. x ! k * y ! k) a) a"

text \<open>
  The determinant of the leading \<open>n \<times> n\<close> block of a matrix given by its entries,
  by expansion along the first column.  \<open>skip r\<close> enumerates the rows other than
  \<open>r\<close> and \<open>minor A r\<close> is \<open>A\<close> without row \<open>r\<close> and the first column.
\<close>

definition skip :: "nat \<Rightarrow> nat \<Rightarrow> nat" where
  "skip r i = (if i < r then i else Suc i)"

definition minor :: "(nat \<Rightarrow> nat \<Rightarrow> real) \<Rightarrow> nat \<Rightarrow> nat \<Rightarrow> nat \<Rightarrow> real" where
  "minor A r = (\<lambda>i j. A (skip r i) (Suc j))"

fun Det :: "nat \<Rightarrow> (nat \<Rightarrow> nat \<Rightarrow> real) \<Rightarrow> real" where
  "Det 0 A = 1"
| "Det (Suc n) A = (\<Sum>r<Suc n. (- 1) ^ r * A r 0 * Det n (minor A r))"

declare Det.simps(2) [simp del]

text \<open>The position of row \<open>r\<close> among the rows other than \<open>q\<close>.\<close>

definition unskip :: "nat \<Rightarrow> nat \<Rightarrow> nat" where
  "unskip q r = (if r < q then r else r - 1)"

text \<open>
  The block that one elimination step leaves: row \<open>0\<close>, scaled, is subtracted from
  every other row so that the first column vanishes.
\<close>

definition schur :: "(nat \<Rightarrow> nat \<Rightarrow> real) \<Rightarrow> nat \<Rightarrow> nat \<Rightarrow> real" where
  "schur A = (\<lambda>i j. A (Suc i) (Suc j) - A (Suc i) 0 / A 0 0 * A 0 (Suc j))"

text \<open>
  The matrix of the hyperplane fit: row \<open>i\<close> holds coordinate \<open>i\<close> of every vertex
  (the columns are the vertices).  The Euclidean norm of a vector.
\<close>

definition vertex_columns :: "nat \<Rightarrow> ('p \<Rightarrow> vector) \<Rightarrow> 'p list \<Rightarrow> matrix" where
  "vertex_columns d pt vs = map (\<lambda>i. map (\<lambda>v. pt v ! i) vs) [0..<d]"

definition euclidean_norm :: "vector \<Rightarrow> real" where
  "euclidean_norm x = sqrt (sum_list (map (\<lambda>a. a * a) x))"

text \<open>
  The entries of the active block of step \<open>i\<close>, and the matrices that \<open>det\<close>
  does not declare singular: at every elimination step the column maximum is above
  \<open>eps\<close>.
\<close>

definition blk :: "nat \<Rightarrow> matrix \<Rightarrow> nat \<Rightarrow> nat \<Rightarrow> real" where
  "blk i m = (\<lambda>r c. m ! (i + r) ! (i + c))"

definition regular :: "real \<Rightarrow> nat \<Rightarrow> matrix \<Rightarrow> bool" where
  "regular eps n m \<longleftrightarrow> list_all (\<lambda>s. eps < step_max s) (lup_steps eps n 0 m)"


text \<open>
  \<open>det\<close> is faithful on a matrix when it declares it singular only if its
  determinant is zero.
\<close>

definition faithful :: "real \<Rightarrow> nat \<Rightarrow> matrix \<Rightarrow> bool" where
  "faithful eps n m \<longleftrightarrow> regular eps n m \<or> Det n (\<lambda>r c. m ! r ! c) = 0"

text \<open>
  Points of \<open>d\<close> coordinates are affinely independent when no combination of them
  with coefficients that are not all zero and sum to zero vanishes.  The matrix of
  their homogeneous coordinates has the points as columns, under a row of ones.
\<close>

definition affinely_independent :: "nat \<Rightarrow> vector list \<Rightarrow> bool" where
  "affinely_independent d xs \<longleftrightarrow>
     \<not> (\<exists>c :: nat \<Rightarrow> real. (\<exists>j<length xs. c j \<noteq> 0) \<and> (\<Sum>j<length xs. c j) = 0
          \<and> (\<forall>i<d. (\<Sum>j<length xs. c j * xs ! j ! i) = 0))"

definition homogeneous :: "nat \<Rightarrow> vector list \<Rightarrow> nat \<Rightarrow> nat \<Rightarrow> real" where
  "homogeneous d xs = (\<lambda>i j. if i < d then xs ! j ! i else 1)"

chapter \<open>Verified properties\<close>

section \<open>\<open>replace_neighbour\<close> rewrites one entry\<close>

lemma first_index_None: "first_index x ns = None \<longleftrightarrow> x \<notin> set ns"
  by (induction ns) auto

lemma first_index_Some:
  "first_index x ns = Some i \<Longrightarrow> i < length ns \<and> ns ! i = x \<and> (\<forall>j<i. ns ! j \<noteq> x)"
proof (induction ns arbitrary: i)
  case Nil
  then show ?case by simp
next
  case (Cons n ns)
  show ?case
  proof (cases "n = x")
    case True
    with Cons.prems show ?thesis by simp
  next
    case False
    with Cons.prems obtain k where k: "first_index x ns = Some k" "i = Suc k"
      by auto
    from Cons.IH [OF k(1)] False k(2) show ?thesis
      by (auto simp: less_Suc_eq_0_disj)
  qed
qed

lemma replace_first_index:
  "replace_first from to ns =
     (case first_index from ns of None \<Rightarrow> ns | Some i \<Rightarrow> ns[i := to])"
  by (induction ns) (auto split: option.splits)

text \<open>
  Claim C10.  For a facet index \<open>f\<close> of the store, \<open>replace_neighbour f from to\<close>
  returns, and the store it leaves has the same number of facets; every facet other
  than \<open>f\<close> is unchanged; facet \<open>f\<close> differs from its old value in its neighbours
  array only, and that array is the old one when \<open>from\<close> does not occur in it and
  otherwise the old one with exactly the entry at the first occurrence of \<open>from\<close>
  overwritten by \<open>to\<close>; and when \<open>from = to\<close> the store is returned as it was.
\<close>

theorem replace_neighbour_frame:
  assumes "f < length fs"
  shows "\<exists>fs'. replace_neighbour fs f from to = Some fs'
    \<and> length fs' = length fs
    \<and> (\<forall>g. g \<noteq> f \<longrightarrow> fs' ! g = fs ! g)
    \<and> fs' ! f = (fs ! f)\<lparr>neighbours := neighbours (fs' ! f)\<rparr>
    \<and> (case first_index from (neighbours (fs ! f)) of
          None \<Rightarrow> neighbours (fs' ! f) = neighbours (fs ! f)
        | Some i \<Rightarrow> i < length (neighbours (fs ! f))
            \<and> neighbours (fs ! f) ! i = from
            \<and> (\<forall>j<i. neighbours (fs ! f) ! j \<noteq> from)
            \<and> neighbours (fs' ! f) = (neighbours (fs ! f))[i := to])
    \<and> (from = to \<longrightarrow> fs' = fs)"
proof (cases "from = to")
  case True
  have "(case first_index to (neighbours (fs ! f)) of
          None \<Rightarrow> True
        | Some i \<Rightarrow> i < length (neighbours (fs ! f))
            \<and> neighbours (fs ! f) ! i = to
            \<and> (\<forall>j<i. neighbours (fs ! f) ! j \<noteq> to)
            \<and> neighbours (fs ! f) = (neighbours (fs ! f))[i := to])"
    using first_index_Some [of to "neighbours (fs ! f)"]
    by (auto split: option.splits simp: list_update_same_conv)
  with True show ?thesis
    by (auto simp: replace_neighbour_def split: option.splits)
next
  case False
  let ?ns = "neighbours (fs ! f)"
  let ?fs = "fs[f := (fs ! f)\<lparr>neighbours := replace_first from to ?ns\<rparr>]"
  have r: "replace_neighbour fs f from to = Some ?fs"
    using False assms by (simp add: replace_neighbour_def)
  have n: "neighbours (?fs ! f) = replace_first from to ?ns"
    using assms by simp
  have c: "(case first_index from ?ns of
          None \<Rightarrow> replace_first from to ?ns = ?ns
        | Some i \<Rightarrow> i < length ?ns \<and> ?ns ! i = from \<and> (\<forall>j<i. ?ns ! j \<noteq> from)
            \<and> replace_first from to ?ns = ?ns[i := to])"
    using first_index_Some [of "from" ?ns]
    by (auto simp: replace_first_index split: option.splits)
  have c': "(case first_index from ?ns of
          None \<Rightarrow> neighbours (?fs ! f) = ?ns
        | Some i \<Rightarrow> i < length ?ns \<and> ?ns ! i = from \<and> (\<forall>j<i. ?ns ! j \<noteq> from)
            \<and> neighbours (?fs ! f) = ?ns[i := to])"
    unfolding n by (rule c)
  have o: "\<forall>g. g \<noteq> f \<longrightarrow> ?fs ! g = fs ! g"
    by simp
  have s: "?fs ! f = (fs ! f)\<lparr>neighbours := neighbours (?fs ! f)\<rparr>"
    using assms by simp
  have l: "length ?fs = length fs"
    by simp
  from r l o s c' False show ?thesis
    by blast
qed

theorem replace_neighbour_frame_witness:
  "(1::nat) < length [\<lparr>vertices = [0::nat, 1], neighbours = [1, 1], outside = [],
        coplanar = [], normal = [], D = 0\<rparr>,
      \<lparr>vertices = [1, 2], neighbours = [0, 2, 0], outside = [],
        coplanar = [], normal = [], D = 0\<rparr>]
   \<and> replace_neighbour [\<lparr>vertices = [0::nat, 1], neighbours = [1, 1], outside = [],
        coplanar = [], normal = [], D = 0\<rparr>,
      \<lparr>vertices = [1, 2], neighbours = [0, 2, 0], outside = [],
        coplanar = [], normal = [], D = 0\<rparr>] 1 0 7
     = Some [\<lparr>vertices = [0::nat, 1], neighbours = [1, 1], outside = [],
        coplanar = [], normal = [], D = 0\<rparr>,
      \<lparr>vertices = [1, 2], neighbours = [7, 2, 0], outside = [],
        coplanar = [], normal = [], D = 0\<rparr>]"
  using replace_neighbour_frame [of 1 "[\<lparr>vertices = [0::nat, 1], neighbours = [1, 1],
        outside = [], coplanar = [], normal = [], D = 0\<rparr>,
      \<lparr>vertices = [1, 2], neighbours = [0, 2, 0], outside = [],
        coplanar = [], normal = [], D = 0\<rparr>]" 0 7]
  by (simp add: replace_neighbour_def)

section \<open>The ranking and its inverse index\<close>

lemma fresh_address_bound: "n \<in> set r \<Longrightarrow> address n < fold (\<lambda>n a. max (Suc (address n)) a) r a"
proof (induction r arbitrary: a)
  case Nil then show ?case by simp
next
  case (Cons x r)
  have mono: "a \<le> fold (\<lambda>n a. max (Suc (address n)) a) r a" for a
  proof (induction r arbitrary: a)
    case Nil then show ?case by simp
  next
    case (Cons y r)
    have "a \<le> max (Suc (address y)) a" by simp
    also have "\<dots> \<le> fold (\<lambda>n a. max (Suc (address n)) a) r (max (Suc (address y)) a)"
      by (rule Cons.IH)
    finally show ?case by simp
  qed
  from Cons show ?case
  proof (cases "n = x")
    case True
    have "address x < max (Suc (address x)) a" by simp
    also have "\<dots> \<le> fold (\<lambda>n a. max (Suc (address n)) a) r (max (Suc (address x)) a)"
      by (rule mono)
    finally show ?thesis using True by simp
  next
    case False
    with Cons show ?thesis by simp
  qed
qed

lemma fresh_address_fresh: "fresh_address r \<notin> address ` set r"
proof
  assume "fresh_address r \<in> address ` set r"
  then obtain n where n: "n \<in> set r" "address n = fresh_address r" by auto
  from fresh_address_bound [OF n(1), of 0] n(2) show False
    by (simp add: fresh_address_def)
qed

lemma mset_multimap_emplace: "mset (multimap_emplace n r) = add_mset n (mset r)"
  by (induction r) auto

lemma set_multimap_emplace: "set (multimap_emplace n r) = insert n (set r)"
  by (induction r) auto

lemma linked_set:
  assumes "linked h"
  shows "set (ranking_meta h) = (\<lambda>n. (second n, address n)) ` set (ranking h)"
proof -
  from assms
  have "set_mset (mset (map (\<lambda>n. (second n, address n)) (ranking h)))
      = set_mset (mset (ranking_meta h))"
    by (simp add: linked_def)
  then show ?thesis by simp
qed

lemma linked_fst: "linked h \<Longrightarrow> fst ` set (ranking_meta h) = second ` set (ranking h)"
proof -
  assume "linked h"
  then have "set_mset (mset (map (\<lambda>n. (second n, address n)) (ranking h))) = set_mset (mset (ranking_meta h))"
    by (simp add: linked_def)
  then have "set (ranking_meta h) = (\<lambda>n. (second n, address n)) ` set (ranking h)"
    by simp
  then show ?thesis by (simp add: image_image)
qed

lemma linked_rank:
  assumes "linked h" "f \<notin> second ` set (ranking h)"
  shows "linked (rank eps x f h)"
proof (cases "eps < x")
  case False
  with assms show ?thesis by (simp add: rank_def)
next
  case True
  let ?it = "fresh_address (ranking h)"
  let ?n = "\<lparr>address = ?it, first = x, second = f\<rparr>"
  have nf: "f \<notin> fst ` set (ranking_meta h)"
    using assms linked_fst by blast
  have r: "ranking (rank eps x f h) = multimap_emplace ?n (ranking h)"
    using True by (simp add: rank_def Let_def)
  have m: "ranking_meta (rank eps x f h) = ranking_meta h @ [(f, ?it)]"
    using True nf by (simp add: rank_def Let_def meta_emplace_def)
  have d1: "distinct (map address (multimap_emplace ?n (ranking h)))"
  proof -
    have "mset (map address (multimap_emplace ?n (ranking h)))
        = mset (?it # map address (ranking h))"
      by (simp add: mset_multimap_emplace)
    then have "distinct (map address (multimap_emplace ?n (ranking h)))
        = distinct (?it # map address (ranking h))"
      by (rule mset_eq_imp_distinct_iff)
    then show ?thesis
      using assms(1) fresh_address_fresh [of "ranking h"] by (simp add: linked_def)
  qed
  have d2: "distinct (map fst (ranking_meta h @ [(f, ?it)]))"
    using assms(1) nf by (simp add: linked_def)
  have e: "mset (map (\<lambda>n. (second n, address n)) (multimap_emplace ?n (ranking h)))
      = mset (ranking_meta h @ [(f, ?it)])"
    using assms(1) by (simp add: linked_def mset_multimap_emplace)
  show ?thesis unfolding linked_def r m using d1 d2 e by simp
qed

lemma linked_unrank:
  assumes "linked h"
  shows "linked (unrank f h)"
proof (cases "map_of (ranking_meta h) f")
  case None
  with assms show ?thesis by (simp add: unrank_def linked_def)
next
  case (Some it)
  let ?g = "\<lambda>n. (second n, address n)"
  have eq: "mset (map ?g (ranking h)) = mset (ranking_meta h)"
    and da: "distinct (map address (ranking h))"
    and df: "distinct (map fst (ranking_meta h))"
    using assms by (simp_all add: linked_def)
  have mem: "(f, it) \<in> set (ranking_meta h)"
    using Some by (rule map_of_SomeD)
  have sets: "set (ranking_meta h) = ?g ` set (ranking h)"
    using assms by (rule linked_set)
  have iff: "address n \<noteq> it \<longleftrightarrow> fst (?g n) \<noteq> f" if n: "n \<in> set (ranking h)" for n
  proof -
    from mem sets obtain k where k: "k \<in> set (ranking h)" "second k = f" "address k = it"
      by auto
    have inj: "inj_on address (set (ranking h))"
      using da by (simp add: distinct_map)
    have "address n = it \<Longrightarrow> second n = f"
      using inj_onD [OF inj, of n k] n k by simp
    moreover have "second n = f \<Longrightarrow> address n = it"
    proof -
      assume "second n = f"
      then have "(f, address n) \<in> set (ranking_meta h)"
        using n sets by force
      then have "map_of (ranking_meta h) f = Some (address n)"
        using df by (simp add: map_of_is_SomeI)
      with Some show ?thesis by simp
    qed
    ultimately show ?thesis by auto
  qed
  have "filter (\<lambda>n. address n \<noteq> it) (ranking h)
      = filter (\<lambda>n. fst (?g n) \<noteq> f) (ranking h)"
    by (rule filter_cong) (simp_all add: iff)
  then have "mset (map ?g (filter (\<lambda>n. address n \<noteq> it) (ranking h)))
      = mset (map ?g (filter (\<lambda>n. fst (?g n) \<noteq> f) (ranking h)))"
    by simp
  also have "\<dots> = mset (filter (\<lambda>e. fst e \<noteq> f) (map ?g (ranking h)))"
    by (simp add: filter_map comp_def)
  also have "\<dots> = mset (filter (\<lambda>e. fst e \<noteq> f) (ranking_meta h))"
    using arg_cong [OF eq, of "filter_mset (\<lambda>e. fst e \<noteq> f)"] by simp
  finally have e: "mset (map ?g (filter (\<lambda>n. address n \<noteq> it) (ranking h)))
      = mset (filter (\<lambda>e. fst e \<noteq> f) (ranking_meta h))" .
  have d1: "distinct (map address (filter (\<lambda>n. address n \<noteq> it) (ranking h)))"
    using da by (simp add: distinct_map_filter)
  have d2: "distinct (map fst (filter (\<lambda>e. fst e \<noteq> f) (ranking_meta h)))"
    using df by (simp add: distinct_map_filter)
  show ?thesis
    using e d1 d2 Some by (simp add: unrank_def linked_def)
qed

lemma reachable_linked: "reachable eps h \<Longrightarrow> linked h"
proof (induction rule: reachable.induct)
  case (reachable_empty h)
  then show ?case by (simp add: linked_def)
next
  case (reachable_rank h f x)
  then show ?case by (simp add: linked_rank)
next
  case (reachable_unrank h f)
  then show ?case by (simp add: linked_unrank)
qed

lemma linked_pairs:
  assumes "linked h"
  shows "set (forward_pairs h) = set (inverse_pairs h)"
proof -
  let ?g = "\<lambda>n. (second n, address n)"
  have sets: "set (ranking_meta h) = ?g ` set (ranking h)"
    using assms by (rule linked_set)
  have inj: "inj_on address (set (ranking h))"
    using assms by (simp add: linked_def distinct_map)
  have inv: "set (inverse_pairs h)
      = {(first n, f) | n f. n \<in> set (ranking h) \<and> (f, address n) \<in> set (ranking_meta h)}"
    by (auto simp: inverse_pairs_def)
  have "(f, address n) \<in> set (ranking_meta h) \<longleftrightarrow> f = second n"
    if n: "n \<in> set (ranking h)" for n f
  proof
    assume "(f, address n) \<in> set (ranking_meta h)"
    with sets obtain k where k: "k \<in> set (ranking h)" "second k = f" "address k = address n"
      by auto
    from inj_onD [OF inj k(3) k(1) n] k(2) show "f = second n" by simp
  next
    assume "f = second n"
    with n sets show "(f, address n) \<in> set (ranking_meta h)" by auto
  qed
  then have "set (inverse_pairs h) = {(first n, second n) | n. n \<in> set (ranking h)}"
    unfolding inv by blast
  then show ?thesis by (auto simp: forward_pairs_def)
qed

lemma linked_sizes:
  assumes "linked h"
  shows "length (ranking h) = length (ranking_meta h)" "distinct (map second (ranking h))"
proof -
  let ?g = "\<lambda>n. (second n, address n)"
  have eq: "mset (map ?g (ranking h)) = mset (ranking_meta h)"
    using assms by (simp add: linked_def)
  from arg_cong [OF eq, of size] show "length (ranking h) = length (ranking_meta h)"
    by simp
  from arg_cong [OF eq, of "image_mset fst"]
  have "mset (map second (ranking h)) = mset (map fst (ranking_meta h))"
    by (simp add: image_mset.compositionality comp_def)
  from mset_eq_imp_distinct_iff [OF this] assms show "distinct (map second (ranking h))"
    by (simp add: linked_def)
qed

lemma rank_forward:
  "(if eps < x
    then mset (forward_pairs (rank eps x f h)) = add_mset (x, f) (mset (forward_pairs h))
    else rank eps x f h = h)"
  by (simp add: rank_def forward_pairs_def Let_def mset_multimap_emplace)

lemma filter_mset_map:
  "filter_mset P (mset (map g xs)) = mset (map g (filter (\<lambda>x. P (g x)) xs))"
  by (induction xs) auto

lemma unrank_effect:
  assumes "linked h"
  shows "f \<notin> second ` set (ranking (unrank f h))"
    and "f \<notin> fst ` set (ranking_meta (unrank f h))"
    and "mset (forward_pairs (unrank f h))
           = filter_mset (\<lambda>e. snd e \<noteq> f) (mset (forward_pairs h))"
    and "removed_facets (unrank f h) = removed_facets h @ [f]"
proof -
  have l: "linked (unrank f h)"
    using assms by (rule linked_unrank)
  show m: "f \<notin> fst ` set (ranking_meta (unrank f h))"
  proof (cases "map_of (ranking_meta h) f")
    case None
    then have "f \<notin> fst ` set (ranking_meta h)"
      by (simp add: map_of_eq_None_iff)
    with None show ?thesis by (simp add: unrank_def)
  next
    case (Some it)
    then show ?thesis by (auto simp: unrank_def)
  qed
  with linked_fst [OF l] show "f \<notin> second ` set (ranking (unrank f h))"
    by simp
  show "removed_facets (unrank f h) = removed_facets h @ [f]"
    by (simp add: unrank_def split: option.splits)
  show "mset (forward_pairs (unrank f h))
           = filter_mset (\<lambda>e. snd e \<noteq> f) (mset (forward_pairs h))"
  proof (cases "map_of (ranking_meta h) f")
    case None
    then have "f \<notin> second ` set (ranking h)"
      using linked_fst [OF assms] by (simp add: map_of_eq_None_iff)
    then have "filter (\<lambda>n. second n \<noteq> f) (ranking h) = ranking h"
      by (auto simp: filter_id_conv)
    then have "filter_mset (\<lambda>e. snd e \<noteq> f) (mset (forward_pairs h)) = mset (forward_pairs h)"
      unfolding forward_pairs_def filter_mset_map by simp
    with None show ?thesis by (simp add: unrank_def forward_pairs_def)
  next
    case (Some it)
    let ?g = "\<lambda>n. (second n, address n)"
    have sets: "set (ranking_meta h) = ?g ` set (ranking h)"
    using assms by (rule linked_set)
    have inj: "inj_on address (set (ranking h))"
      using assms by (simp add: linked_def distinct_map)
    have df: "distinct (map fst (ranking_meta h))"
      using assms by (simp add: linked_def)
    from map_of_SomeD [OF Some] sets
    obtain k where k: "k \<in> set (ranking h)" "second k = f" "address k = it"
      by auto
    have iff: "address n \<noteq> it \<longleftrightarrow> second n \<noteq> f" if n: "n \<in> set (ranking h)" for n
    proof -
      have "address n = it \<Longrightarrow> second n = f"
        using inj_onD [OF inj, of n k] n k by simp
      moreover have "second n = f \<Longrightarrow> address n = it"
      proof -
        assume "second n = f"
        then have "(f, address n) \<in> set (ranking_meta h)"
          using n sets by force
        then have "map_of (ranking_meta h) f = Some (address n)"
          using df by (simp add: map_of_is_SomeI)
        with Some show ?thesis by simp
      qed
      ultimately show ?thesis by auto
    qed
    have "filter (\<lambda>n. address n \<noteq> it) (ranking h) = filter (\<lambda>n. second n \<noteq> f) (ranking h)"
      by (rule filter_cong) (simp_all add: iff)
    then show ?thesis
      unfolding forward_pairs_def filter_mset_map using Some by (simp add: unrank_def)
  qed
qed

text \<open>
  Claim C7.  In every state reachable from the empty ranking by \<open>rank\<close> and
  \<open>unrank\<close>, with \<open>rank\<close> never applied to a facet index that is present, the
  ranking multimap and the inverse index have the same size and describe the same set
  of (distance, facet index) pairs, and no facet index occurs twice in the ranking.
  In such a state \<open>rank\<close> adds the pair to the ranking when the distance is above
  \<open>eps\<close> and otherwise changes nothing; \<open>unrank f\<close> leaves no entry for \<open>f\<close>
  in either structure, keeps every other pair, and pushes \<open>f\<close> on the free list.
\<close>

theorem ranking_invariant:
  assumes "reachable eps h"
  shows "length (ranking h) = length (ranking_meta h)
    \<and> set (forward_pairs h) = set (inverse_pairs h)
    \<and> distinct (map second (ranking h))
    \<and> (\<forall>x f. if eps < x
          then mset (forward_pairs (rank eps x f h)) = add_mset (x, f) (mset (forward_pairs h))
          else rank eps x f h = h)
    \<and> (\<forall>f. f \<notin> second ` set (ranking (unrank f h))
          \<and> f \<notin> fst ` set (ranking_meta (unrank f h))
          \<and> mset (forward_pairs (unrank f h))
              = filter_mset (\<lambda>e. snd e \<noteq> f) (mset (forward_pairs h))
          \<and> removed_facets (unrank f h) = removed_facets h @ [f])"
proof -
  have l: "linked h"
    using assms by (rule reachable_linked)
  have r: "\<forall>x f. if eps < x
          then mset (forward_pairs (rank eps x f h)) = add_mset (x, f) (mset (forward_pairs h))
          else rank eps x f h = h"
    using rank_forward by blast
  have u: "\<forall>f. f \<notin> second ` set (ranking (unrank f h))
          \<and> f \<notin> fst ` set (ranking_meta (unrank f h))
          \<and> mset (forward_pairs (unrank f h))
              = filter_mset (\<lambda>e. snd e \<noteq> f) (mset (forward_pairs h))
          \<and> removed_facets (unrank f h) = removed_facets h @ [f]"
    using unrank_effect [OF l] by simp
  from linked_sizes [OF l] linked_pairs [OF l] r u show ?thesis
    by (intro conjI)
qed

theorem ranking_invariant_witness:
  "reachable 0 (unrank 3 (rank 0 1 4 (rank 0 2 3 (quick_hull_init 2 :: nat quick_hull))))
   \<and> length (ranking (unrank 3 (rank 0 1 4 (rank 0 2 3 (quick_hull_init 2 :: nat quick_hull)))))
     = length (ranking_meta (unrank 3 (rank 0 1 4 (rank 0 2 3 (quick_hull_init 2 :: nat quick_hull)))))
   \<and> set (forward_pairs (unrank 3 (rank 0 1 4 (rank 0 2 3 (quick_hull_init 2 :: nat quick_hull)))))
     = set (inverse_pairs (unrank 3 (rank 0 1 4 (rank 0 2 3 (quick_hull_init 2 :: nat quick_hull)))))
   \<and> forward_pairs (unrank 3 (rank 0 1 4 (rank 0 2 3 (quick_hull_init 2 :: nat quick_hull))))
     = [(1, 4)]
   \<and> forward_pairs (rank 0 1 4 (rank 0 2 3 (quick_hull_init 2 :: nat quick_hull)))
     = [(1, 4), (2, 3)]
   \<and> removed_facets (unrank 3 (rank 0 1 4 (rank 0 2 3 (quick_hull_init 2 :: nat quick_hull))))
     = [3]"
proof -
  let ?h0 = "quick_hull_init 2 :: nat quick_hull"
  have r0: "reachable 0 ?h0"
    by (rule reachable_empty) (simp_all add: quick_hull_init_def)
  have r1: "reachable 0 (rank 0 2 3 ?h0)"
    by (rule reachable_rank [OF r0]) (simp add: quick_hull_init_def)
  have r2: "reachable 0 (rank 0 1 4 (rank 0 2 3 ?h0))"
    by (rule reachable_rank [OF r1])
      (simp add: quick_hull_init_def rank_def fresh_address_def meta_emplace_def)
  have r3: "reachable 0 (unrank 3 (rank 0 1 4 (rank 0 2 3 ?h0)))"
    by (rule reachable_unrank [OF r2])
  from r3 ranking_invariant [OF r3] show ?thesis
    by (simp add: quick_hull_init_def rank_def unrank_def fresh_address_def
        meta_emplace_def forward_pairs_def)
qed

section \<open>The partitioner\<close>

lemma distance_fields: "normal a = normal b \<Longrightarrow> D a = D b \<Longrightarrow> distance a x = distance b x"
  by (simp add: distance_def)

lemma partition_loop_spec:
  assumes "\<And>x. distance fc x = dist' x"
  shows "\<exists>r fc' pool'. partition_loop eps pt pool dl fc = (r, fc', pool')
    \<and> fc' = fc\<lparr>outside := outside fc', coplanar := coplanar fc'\<rparr>
    \<and> pool' = filter (\<lambda>p. \<not> eps < dist' (pt p)) pool
    \<and> coplanar fc' = coplanar fc @ filter (\<lambda>p. \<not> eps < dist' (pt p) \<and> \<not> dist' (pt p) < - eps) pool
    \<and> mset (outside fc') = mset (outside fc) + mset (filter (\<lambda>p. eps < dist' (pt p)) pool)
    \<and> (furthest_first (\<lambda>p. dist' (pt p)) eps dl (outside fc)
         \<longrightarrow> furthest_first (\<lambda>p. dist' (pt p)) eps r (outside fc'))
    \<and> (filter (\<lambda>p. eps < dist' (pt p)) pool = [] \<longrightarrow> r = dl \<and> outside fc' = outside fc)"
  using assms
proof (induction pool arbitrary: dl fc)
  case Nil
  then show ?case by simp
next
  case (Cons p ps)
  let ?d = "dist' (pt p)"
  have dp: "distance fc (pt p) = ?d" by (rule Cons.prems)
  consider (to_front) "eps < ?d" "dl < ?d" | (to_back) "eps < ?d" "\<not> dl < ?d"
    | (copl) "\<not> eps < ?d" "\<not> ?d < - eps" | (below) "\<not> eps < ?d" "?d < - eps"
    by blast
  then show ?case
  proof cases
    case to_front
    let ?fc = "fc\<lparr>outside := p # outside fc\<rparr>"
    have "\<And>x. distance ?fc x = dist' x"
      using Cons.prems by (simp add: distance_def)
    from Cons.IH [OF this, of ?d] obtain r fc' pool' where
      *: "partition_loop eps pt ps ?d ?fc = (r, fc', pool')"
        "fc' = ?fc\<lparr>outside := outside fc', coplanar := coplanar fc'\<rparr>"
        "pool' = filter (\<lambda>p. \<not> eps < dist' (pt p)) ps"
        "coplanar fc' = coplanar ?fc @ filter (\<lambda>p. \<not> eps < dist' (pt p) \<and> \<not> dist' (pt p) < - eps) ps"
        "mset (outside fc') = mset (outside ?fc) + mset (filter (\<lambda>p. eps < dist' (pt p)) ps)"
        "furthest_first (\<lambda>p. dist' (pt p)) eps ?d (outside ?fc)
         \<longrightarrow> furthest_first (\<lambda>p. dist' (pt p)) eps r (outside fc')"
      by blast
    have ff: "furthest_first (\<lambda>p. dist' (pt p)) eps dl (outside fc)
        \<Longrightarrow> furthest_first (\<lambda>p. dist' (pt p)) eps ?d (outside ?fc)"
      using to_front by (auto simp: furthest_first_def)
    have r: "partition_loop eps pt (p # ps) dl fc = (r, fc', pool')"
      using to_front dp * by simp
    show ?thesis
      unfolding r using to_front * ff by auto
  next
    case to_back
    let ?fc = "fc\<lparr>outside := outside fc @ [p]\<rparr>"
    have "\<And>x. distance ?fc x = dist' x"
      using Cons.prems by (simp add: distance_def)
    from Cons.IH [OF this, of dl] obtain r fc' pool' where
      *: "partition_loop eps pt ps dl ?fc = (r, fc', pool')"
        "fc' = ?fc\<lparr>outside := outside fc', coplanar := coplanar fc'\<rparr>"
        "pool' = filter (\<lambda>p. \<not> eps < dist' (pt p)) ps"
        "coplanar fc' = coplanar ?fc @ filter (\<lambda>p. \<not> eps < dist' (pt p) \<and> \<not> dist' (pt p) < - eps) ps"
        "mset (outside fc') = mset (outside ?fc) + mset (filter (\<lambda>p. eps < dist' (pt p)) ps)"
        "furthest_first (\<lambda>p. dist' (pt p)) eps dl (outside ?fc)
         \<longrightarrow> furthest_first (\<lambda>p. dist' (pt p)) eps r (outside fc')"
      by blast
    have ff: "furthest_first (\<lambda>p. dist' (pt p)) eps dl (outside fc)
        \<Longrightarrow> furthest_first (\<lambda>p. dist' (pt p)) eps dl (outside ?fc)"
      using to_back by (auto simp: furthest_first_def split: if_splits)
    have r: "partition_loop eps pt (p # ps) dl fc = (r, fc', pool')"
      using to_back dp * by simp
    show ?thesis
      unfolding r using to_back * ff by auto
  next
    case copl
    let ?fc = "fc\<lparr>coplanar := coplanar fc @ [p]\<rparr>"
    have "\<And>x. distance ?fc x = dist' x"
      using Cons.prems by (simp add: distance_def)
    from Cons.IH [OF this, of dl] obtain r fc' pool' where
      *: "partition_loop eps pt ps dl ?fc = (r, fc', pool')"
        "fc' = ?fc\<lparr>outside := outside fc', coplanar := coplanar fc'\<rparr>"
        "pool' = filter (\<lambda>p. \<not> eps < dist' (pt p)) ps"
        "coplanar fc' = coplanar ?fc @ filter (\<lambda>p. \<not> eps < dist' (pt p) \<and> \<not> dist' (pt p) < - eps) ps"
        "mset (outside fc') = mset (outside ?fc) + mset (filter (\<lambda>p. eps < dist' (pt p)) ps)"
        "furthest_first (\<lambda>p. dist' (pt p)) eps dl (outside ?fc)
         \<longrightarrow> furthest_first (\<lambda>p. dist' (pt p)) eps r (outside fc')"
        "filter (\<lambda>p. eps < dist' (pt p)) ps = [] \<longrightarrow> r = dl \<and> outside fc' = outside ?fc"
      by blast
    have r: "partition_loop eps pt (p # ps) dl fc = (r, fc', p # pool')"
      using copl dp * by simp
    show ?thesis
      unfolding r using copl * by auto
  next
    case below
    from Cons.IH [OF Cons.prems, of dl] obtain r fc' pool' where
      *: "partition_loop eps pt ps dl fc = (r, fc', pool')"
        "fc' = fc\<lparr>outside := outside fc', coplanar := coplanar fc'\<rparr>"
        "pool' = filter (\<lambda>p. \<not> eps < dist' (pt p)) ps"
        "coplanar fc' = coplanar fc @ filter (\<lambda>p. \<not> eps < dist' (pt p) \<and> \<not> dist' (pt p) < - eps) ps"
        "mset (outside fc') = mset (outside fc) + mset (filter (\<lambda>p. eps < dist' (pt p)) ps)"
        "furthest_first (\<lambda>p. dist' (pt p)) eps dl (outside fc)
         \<longrightarrow> furthest_first (\<lambda>p. dist' (pt p)) eps r (outside fc')"
        "filter (\<lambda>p. eps < dist' (pt p)) ps = [] \<longrightarrow> r = dl \<and> outside fc' = outside fc"
      by blast
    have r: "partition_loop eps pt (p # ps) dl fc = (r, fc', p # pool')"
      using below dp * by simp
    show ?thesis
      unfolding r using below * by auto
  qed
qed

text \<open>
  Claim C2.  For a facet whose outside list is empty and any outside pool (the
  tolerance is not negative, as the constructor requires), \<open>partition\<close> changes
  the outside list and the coplanar deque of the facet only; the outside list receives
  exactly the pool handles whose signed distance is above \<open>eps\<close> and the pool keeps
  exactly the others; no handle of the outside list is further than its front; and the
  value returned is the distance of the front, or zero when the outside list stays
  empty, which is an upper bound of the distances above \<open>eps\<close>.
\<close>

theorem partition_outside_furthest:
  assumes "outside fc = []" and "0 \<le> eps"
  shows "\<exists>r fc' pool'. partition_outside eps pt fc pool = (r, fc', pool')
    \<and> fc' = fc\<lparr>outside := outside fc', coplanar := coplanar fc'\<rparr>
    \<and> mset (outside fc') = mset (filter (\<lambda>p. eps < distance fc (pt p)) pool)
    \<and> pool' = filter (\<lambda>p. \<not> eps < distance fc (pt p)) pool
    \<and> (\<forall>q \<in> set (outside fc').
          distance fc (pt q) \<le> distance fc (pt (hd (outside fc'))))
    \<and> r = (if outside fc' = [] then 0 else distance fc (pt (hd (outside fc'))))
    \<and> (\<forall>q \<in> set pool. eps < distance fc (pt q) \<longrightarrow> distance fc (pt q) \<le> r)"
proof -
  let ?g = "\<lambda>p. distance fc (pt p)"
  have ff0: "furthest_first ?g eps 0 (outside fc)"
    using assms by (simp add: furthest_first_def)
  from partition_loop_spec [of fc "distance fc" eps pt pool 0] ff0
  obtain r fc' pool' where
    *: "partition_loop eps pt pool 0 fc = (r, fc', pool')"
      "fc' = fc\<lparr>outside := outside fc', coplanar := coplanar fc'\<rparr>"
      "pool' = filter (\<lambda>p. \<not> eps < ?g p) pool"
      "mset (outside fc') = mset (outside fc) + mset (filter (\<lambda>p. eps < ?g p) pool)"
      "furthest_first ?g eps r (outside fc')"
      "filter (\<lambda>p. eps < ?g p) pool = [] \<longrightarrow> r = 0 \<and> outside fc' = outside fc"
    by blast
  have m: "mset (outside fc') = mset (filter (\<lambda>p. eps < ?g p) pool)"
    using *(4) assms(1) by simp
  have e: "outside fc' = [] \<longleftrightarrow> filter (\<lambda>p. eps < ?g p) pool = []"
    using m by (metis mset_zero_iff)
  have s: "set (outside fc') = {p \<in> set pool. eps < ?g p}"
    using arg_cong [OF m, of set_mset] by simp
  have front: "\<forall>q \<in> set (outside fc'). ?g q \<le> ?g (hd (outside fc'))"
    using *(5) by (auto simp: furthest_first_def split: if_splits)
  have ret: "r = (if outside fc' = [] then 0 else ?g (hd (outside fc')))"
    using *(5,6) e by (auto simp: furthest_first_def split: if_splits)
  have mx: "\<forall>q \<in> set pool. eps < ?g q \<longrightarrow> ?g q \<le> r"
    using *(5) s by (auto simp: furthest_first_def)
  from *(1,2,3) m front ret mx show ?thesis
    unfolding partition_outside_def by blast
qed

text \<open>
  Claim C3, as amended.  \<open>partition\<close> appends to the coplanar deque of the facet
  exactly the pool handles whose signed distance \<open>d\<close> satisfies
  \<open>-eps \<le> d \<le> eps\<close>, in pool order; each such handle is in the coplanar deque
  afterwards and is still in the global outside pool (\<open>push_back\<close> copies the
  handle, nothing is spliced).
\<close>

theorem partition_outside_coplanar:
  "\<exists>r fc' pool'. partition_outside eps pt fc pool = (r, fc', pool')
    \<and> coplanar fc' = coplanar fc
         @ filter (\<lambda>p. - eps \<le> distance fc (pt p) \<and> distance fc (pt p) \<le> eps) pool
    \<and> (\<forall>p \<in> set pool. - eps \<le> distance fc (pt p) \<and> distance fc (pt p) \<le> eps
          \<longrightarrow> p \<in> set (coplanar fc') \<and> p \<in> set pool')"
proof -
  let ?g = "\<lambda>p. distance fc (pt p)"
  from partition_loop_spec [of fc "distance fc" eps pt pool 0]
  obtain r fc' pool' where
    *: "partition_loop eps pt pool 0 fc = (r, fc', pool')"
      "pool' = filter (\<lambda>p. \<not> eps < ?g p) pool"
      "coplanar fc' = coplanar fc @ filter (\<lambda>p. \<not> eps < ?g p \<and> \<not> ?g p < - eps) pool"
    by blast
  have f: "filter (\<lambda>p. \<not> eps < ?g p \<and> \<not> ?g p < - eps) pool
      = filter (\<lambda>p. - eps \<le> ?g p \<and> ?g p \<le> eps) pool"
    by (rule filter_cong) auto
  have c: "coplanar fc' = coplanar fc @ filter (\<lambda>p. - eps \<le> ?g p \<and> ?g p \<le> eps) pool"
    using *(3) f by simp
  have "\<forall>p \<in> set pool. - eps \<le> ?g p \<and> ?g p \<le> eps
          \<longrightarrow> p \<in> set (coplanar fc') \<and> p \<in> set pool'"
    unfolding c *(2) by auto
  with *(1) c show ?thesis
    unfolding partition_outside_def by blast
qed

theorem partition_outside_furthest_witness:
  "outside \<lparr>vertices = [5::nat, 6], neighbours = [1, 2], outside = [], coplanar = [],
        normal = [1, 0], D = 0\<rparr> = [] \<and> (0::real) \<le> 0
   \<and> partition_outside 0 (\<lambda>n. [[1, 0], [3, 0], [2, 0], [0, 0], [- 1, 0], [0, 1], [0, - 1]] ! n)
       \<lparr>vertices = [5::nat, 6], neighbours = [1, 2], outside = [], coplanar = [],
        normal = [1, 0], D = 0\<rparr> [0, 1, 2, 3, 4]
     = (3, \<lparr>vertices = [5::nat, 6], neighbours = [1, 2], outside = [1, 0, 2], coplanar = [3],
        normal = [1, 0], D = 0\<rparr>, [3, 4])"
  using partition_outside_furthest [of "\<lparr>vertices = [5::nat, 6], neighbours = [1, 2], outside = [], coplanar = [],
        normal = [1, 0], D = 0\<rparr>" 0
      "(\<lambda>n. [[1, 0], [3, 0], [2, 0], [0, 0], [- 1, 0], [0, 1], [0, - 1]] ! n)" "[0, 1, 2, 3, 4]"]
  by (simp add: partition_outside_def distance_def)

theorem partition_outside_coplanar_witness:
  "partition_outside 1 (\<lambda>n. [[1, 0], [3, 0], [2, 0], [0, 0], [- 1, 0], [0, 1], [0, - 1]] ! n)
       \<lparr>vertices = [5::nat, 6], neighbours = [1, 2], outside = [], coplanar = [],
        normal = [1, 0], D = 0\<rparr> [3, 1, 0]
     = (3, \<lparr>vertices = [5::nat, 6], neighbours = [1, 2], outside = [1], coplanar = [3, 0],
        normal = [1, 0], D = 0\<rparr>, [3, 0])"
  using partition_outside_coplanar [of 1
      "(\<lambda>n. [[1, 0], [3, 0], [2, 0], [0, 0], [- 1, 0], [0, 1], [0, - 1]] ! n)" "\<lparr>vertices = [5::nat, 6], neighbours = [1, 2], outside = [], coplanar = [],
        normal = [1, 0], D = 0\<rparr>" "[3, 1, 0]"]
  by (simp add: partition_outside_def distance_def)

text \<open>
  The claim C3 as it was stated fails: a handle at distance \<open>0\<close>, with
  \<open>eps = 0\<close>, is in the coplanar deque after \<open>partition\<close> and still in the pool.
\<close>

theorem partition_outside_coplanar_stays:
  "(3::nat) \<in> set [0, 1, 2, 3, 4]
   \<and> - 0 \<le> distance \<lparr>vertices = [5::nat, 6], neighbours = [1, 2], outside = [], coplanar = [],
        normal = [1, 0], D = 0\<rparr> ((\<lambda>n. [[1, 0], [3, 0], [2, 0], [0, 0], [- 1, 0], [0, 1], [0, - 1]] ! n) 3)
   \<and> distance \<lparr>vertices = [5::nat, 6], neighbours = [1, 2], outside = [], coplanar = [],
        normal = [1, 0], D = 0\<rparr> ((\<lambda>n. [[1, 0], [3, 0], [2, 0], [0, 0], [- 1, 0], [0, 1], [0, - 1]] ! n) 3) \<le> 0
   \<and> 3 \<in> set (coplanar (fst (snd (partition_outside 0 (\<lambda>n. [[1, 0], [3, 0], [2, 0], [0, 0], [- 1, 0], [0, 1], [0, - 1]] ! n)
       \<lparr>vertices = [5::nat, 6], neighbours = [1, 2], outside = [], coplanar = [],
        normal = [1, 0], D = 0\<rparr> [0, 1, 2, 3, 4]))))
   \<and> 3 \<in> set (snd (snd (partition_outside 0 (\<lambda>n. [[1, 0], [3, 0], [2, 0], [0, 0], [- 1, 0], [0, 1], [0, - 1]] ! n)
       \<lparr>vertices = [5::nat, 6], neighbours = [1, 2], outside = [], coplanar = [],
        normal = [1, 0], D = 0\<rparr> [0, 1, 2, 3, 4])))"
  by (simp add: partition_outside_def distance_def)

section \<open>The affine basis\<close>

lemma furthest_loop_index:
  "furthest_loop d pt rank' m ps pos (dl, fo, s) = (dl', Some k, s')
   \<Longrightarrow> fo = Some k \<or> (pos \<le> k \<and> k < pos + length ps)"
proof (induction ps arbitrary: pos dl fo s)
  case Nil
  then show ?case by simp
next
  case (Cons p ps)
  from Cons.prems show ?case
    by (auto simp: Let_def split: if_splits dest!: Cons.IH)
qed

lemma steal_best_cases:
  obtains (failed) m s where
      "steal_best d eps pt basis h = (False, basis, h\<lparr>matrix := m, shadow_matrix := s\<rparr>)"
  | (stolen) m s k where "k < length (outside_pool h)"
      "steal_best d eps pt basis h =
         (True, basis @ [outside_pool h ! k],
          h\<lparr>matrix := m, shadow_matrix := s,
            outside_pool := take k (outside_pool h) @ drop (Suc k) (outside_pool h)\<rparr>)"
proof -
  let ?rank = "length basis - 1"
  let ?m1 = "(matrix h)[?rank := copy_point d pt (last basis)]"
  obtain ok s1 where o: "orthonormalize d eps pt basis ?rank (?m1 ! ?rank) (shadow_matrix h) = (ok, s1)"
    by (cases "orthonormalize d eps pt basis ?rank (?m1 ! ?rank) (shadow_matrix h)")
  show thesis
  proof (cases ok)
    case False
    with o have "steal_best d eps pt basis h = (False, basis, h\<lparr>matrix := ?m1, shadow_matrix := s1\<rparr>)"
      by (simp add: steal_best_def Let_def)
    then show thesis by (rule failed)
  next
    case True
    let ?m2 = "forward_transformation d ?rank s1 ?m1"
    obtain dl fo s2 where f: "furthest_loop d pt ?rank ?m2 (outside_pool h) 0 (0, None, s1) = (dl, fo, s2)"
      by (cases "furthest_loop d pt ?rank ?m2 (outside_pool h) 0 (0, None, s1)")
    show thesis
    proof (cases fo)
      case None
      with o True f have "steal_best d eps pt basis h = (False, basis, h\<lparr>matrix := ?m2, shadow_matrix := s2\<rparr>)"
        by (simp add: steal_best_def Let_def)
      then show thesis by (rule failed)
    next
      case (Some k)
      with f furthest_loop_index [of d pt ?rank ?m2 "outside_pool h" 0 0 None s1 dl k s2]
      have k: "k < length (outside_pool h)" by simp
      from o True f Some have "steal_best d eps pt basis h =
         (True, basis @ [outside_pool h ! k],
          h\<lparr>matrix := ?m2, shadow_matrix := s2,
            outside_pool := take k (outside_pool h) @ drop (Suc k) (outside_pool h)\<rparr>)"
        by (simp add: steal_best_def Let_def)
      with k show thesis by (rule stolen)
    qed
  qed
qed

lemma steal_best_spec:
  assumes "steal_best d eps pt basis h = (ok, basis', h')"
  shows "same_but_scratch h h'"
    and "mset basis' + mset (outside_pool h') = mset basis + mset (outside_pool h)"
    and "length basis' = (if ok then Suc (length basis) else length basis)"
proof -
  have "same_but_scratch h h'
    \<and> mset basis' + mset (outside_pool h') = mset basis + mset (outside_pool h)
    \<and> length basis' = (if ok then Suc (length basis) else length basis)"
  proof (cases rule: steal_best_cases [of d eps pt basis h])
    case (failed m s)
    with assms show ?thesis by (auto simp: same_but_scratch_def)
  next
    case (stolen m s k)
    let ?pool = "outside_pool h"
    have "mset ?pool = mset (take k ?pool @ ?pool ! k # drop (Suc k) ?pool)"
      using stolen(1) by (simp add: id_take_nth_drop [symmetric])
    then have "mset (take k ?pool) + mset (drop (Suc k) ?pool) + {#?pool ! k#} = mset ?pool"
      by simp
    with stolen assms show ?thesis by (auto simp: same_but_scratch_def)
  qed
  then show "same_but_scratch h h'"
    and "mset basis' + mset (outside_pool h') = mset basis + mset (outside_pool h)"
    and "length basis' = (if ok then Suc (length basis) else length basis)"
    by simp_all
qed

lemma same_but_scratch_trans:
  "same_but_scratch a b \<Longrightarrow> same_but_scratch b c \<Longrightarrow> same_but_scratch a c"
  unfolding same_but_scratch_def
  by (metis (no_types, lifting) quick_hull.surjective quick_hull.update_convs(1,2,7))

lemma same_but_scratch_refl: "same_but_scratch h h"
  by (simp add: same_but_scratch_def)

lemma steal_loop_spec:
  assumes "steal_loop d eps pt k basis h = (basis', h')"
  shows "same_but_scratch h h'
    \<and> mset basis' + mset (outside_pool h') = mset basis + mset (outside_pool h)
    \<and> length basis' \<le> length basis + k
    \<and> (length basis' = length basis + k
         \<longleftrightarrow> list_all id (steal_loop_verdicts d eps pt k basis h))"
  using assms
proof (induction k arbitrary: basis h)
  case 0
  then show ?case by (simp add: same_but_scratch_refl)
next
  case (Suc k)
  obtain ok b1 h1 where sb: "steal_best d eps pt basis h = (ok, b1, h1)"
    by (cases "steal_best d eps pt basis h")
  note sp = steal_best_spec [OF sb]
  show ?case
  proof (cases ok)
    case False
    with sb Suc.prems have "basis' = b1" "h' = h1" by simp_all
    with sp False sb show ?thesis by simp
  next
    case True
    with sb Suc.prems have "steal_loop d eps pt k b1 h1 = (basis', h')" by simp
    from Suc.IH [OF this] sp True sb show ?thesis
      by (auto intro: same_but_scratch_trans)
  qed
qed

text \<open>
  Claim C6.  On a non-empty outside pool (and a dimension above one, as the
  constructor requires) \<open>get_affine_basis\<close> returns a basis of at most \<open>d + 1\<close>
  handles; the basis together with the pool left behind is a permutation of the pool
  before the call; the basis has exactly \<open>d + 1\<close> handles if and only if every
  invocation of \<open>steal_best\<close> succeeded, and fewer if and only if one failed; and
  apart from the two working matrices and the pool the hull state is unchanged.
\<close>

theorem get_affine_basis_permutation:
  assumes "outside_pool h \<noteq> []" and "1 < d"
  shows "\<exists>basis h'. get_affine_basis d eps pt h = Some (basis, h')
    \<and> length basis \<le> d + 1
    \<and> mset basis + mset (outside_pool h') = mset (outside_pool h)
    \<and> (length basis = d + 1 \<longleftrightarrow> list_all id (steal_verdicts d eps pt h))
    \<and> (length basis < d + 1 \<longleftrightarrow> False \<in> set (steal_verdicts d eps pt h))
    \<and> h' = h\<lparr>matrix := matrix h', shadow_matrix := shadow_matrix h',
              outside_pool := outside_pool h'\<rparr>"
proof -
  from assms(1) obtain p ps where pool: "outside_pool h = p # ps"
    by (cases "outside_pool h") auto
  let ?h0 = "h\<lparr>outside_pool := ps\<rparr>"
  obtain ok b1 h1 where sb: "steal_best d eps pt [p] ?h0 = (ok, b1, h1)"
    by (cases "steal_best d eps pt [p] ?h0")
  note sp = steal_best_spec [OF sb]
  have s0: "same_but_scratch h ?h0"
    by (simp add: same_but_scratch_def)
  have iff: "list_all id vs \<longleftrightarrow> False \<notin> set vs" for vs
    by (induction vs) auto
  show ?thesis
  proof (cases ok)
    case False
    have g: "get_affine_basis d eps pt h = Some (b1, h1)"
      using pool sb False by (simp add: get_affine_basis_def)
    have v: "steal_verdicts d eps pt h = [False]"
      using pool sb False by (simp add: steal_verdicts_def)
    have "same_but_scratch h h1"
      using s0 sp(1) by (rule same_but_scratch_trans)
    with g v sp(2,3) False pool assms(2) show ?thesis
      by (simp add: same_but_scratch_def)
  next
    case True
    let ?h2 = "h1\<lparr>outside_pool := hd b1 # outside_pool h1\<rparr>"
    obtain b2 h3 where sl: "steal_loop d eps pt d (tl b1) ?h2 = (b2, h3)"
      by (cases "steal_loop d eps pt d (tl b1) ?h2")
    note ls = steal_loop_spec [OF sl]
    from sp(3) True obtain x y where b1: "b1 = [x, y]"
      by (cases b1; cases "tl b1") auto
    have g: "get_affine_basis d eps pt h = Some (b2, h3)"
      using pool sb True sl by (simp add: get_affine_basis_def)
    have v: "steal_verdicts d eps pt h = True # steal_loop_verdicts d eps pt d (tl b1) ?h2"
      using pool sb True by (simp add: steal_verdicts_def)
    have "same_but_scratch h1 ?h2"
      by (simp add: same_but_scratch_def)
    with s0 sp(1) ls have f: "same_but_scratch h h3"
      by (blast intro: same_but_scratch_trans)
    have m: "mset b2 + mset (outside_pool h3) = mset (outside_pool h)"
      using ls sp(2) b1 pool by simp
    have l: "length b2 \<le> d + 1"
      using ls b1 by simp
    have e: "length b2 = d + 1 \<longleftrightarrow> list_all id (steal_verdicts d eps pt h)"
      using ls b1 v by simp
    from g l m e f show ?thesis
      using iff [of "steal_verdicts d eps pt h"] by (auto simp: same_but_scratch_def)
  qed
qed

lemma sqrt_25: "sqrt 25 = 5"
  by (rule real_sqrt_unique) simp_all

theorem get_affine_basis_permutation_witness:
  "outside_pool ((quick_hull_init 2 :: nat quick_hull)\<lparr>outside_pool := [0, 1]\<rparr>) \<noteq> [] \<and> (1::nat) < 2
   \<and> map_option (\<lambda>r. (fst r, outside_pool (snd r))) (get_affine_basis 2 0 (\<lambda>n. [[0, 0], [3, 4]] ! n) ((quick_hull_init 2 :: nat quick_hull)\<lparr>outside_pool := [0, 1]\<rparr>))
       = Some ([1, 0], [])
   \<and> steal_verdicts 2 0 (\<lambda>n. [[0, 0], [3, 4]] ! n) ((quick_hull_init 2 :: nat quick_hull)\<lparr>outside_pool := [0, 1]\<rparr>) = [True, True, False]"
  using get_affine_basis_permutation [of "(quick_hull_init 2 :: nat quick_hull)\<lparr>outside_pool := [0, 1]\<rparr>" 2 0 "(\<lambda>n. [[0, 0], [3, 4]] ! n)"]
  by (simp add: get_affine_basis_def steal_verdicts_def steal_best_def orthonormalize_def
      householder.simps load_affine_def forward_transformation_def quick_hull_init_def
      copy_point_def vsub_def project_def tail_sqr_def tail_dot_def tail_reflect_def
      sqrt_25 Let_def numeral_2_eq_2)

section \<open>The facets of the initial simplex\<close>

lemma skip_index:
  assumes "length xs = Suc d" "f \<le> d"
  shows "map (\<lambda>v. xs ! v) (filter (\<lambda>v. v \<noteq> f) [0..<Suc d]) = take f xs @ drop (Suc f) xs"
proof -
  have "[0..<Suc d] = [0..<f] @ [f..<Suc d]"
    using assms(2) upt_add_eq_append [of 0 f "Suc d - f"] by simp
  moreover have "[f..<Suc d] = f # [Suc f..<Suc d]"
    using assms(2) by (simp add: upt_conv_Cons)
  ultimately have u: "[0..<Suc d] = [0..<f] @ f # [Suc f..<Suc d]"
    by simp
  have a: "filter (\<lambda>v. v \<noteq> f) [0..<f] = [0..<f]"
    by (auto simp: filter_id_conv)
  have b: "filter (\<lambda>v. v \<noteq> f) [Suc f..<Suc d] = [Suc f..<Suc d]"
    by (auto simp: filter_id_conv)
  have c: "map (\<lambda>v. xs ! v) [0..<f] = take f xs"
    using assms by (auto intro: nth_equalityI)
  have e: "map (\<lambda>v. xs ! v) [Suc f..<Suc d] = drop (Suc f) xs"
  proof (rule nth_equalityI)
    show "length (map (\<lambda>v. xs ! v) [Suc f..<Suc d]) = length (drop (Suc f) xs)"
      using assms by (simp del: upt_Suc)
  next
    fix i
    assume "i < length (map (\<lambda>v. xs ! v) [Suc f..<Suc d])"
    then show "map (\<lambda>v. xs ! v) [Suc f..<Suc d] ! i = drop (Suc f) xs ! i"
      using assms by (simp del: upt_Suc)
  qed
  show ?thesis
    unfolding u by (simp add: a b c e del: upt_Suc)
qed









section \<open>The LUP determinant\<close>

lemma find_pivot_fold:
  fixes f :: "nat \<Rightarrow> real"
  assumes "i < a" "a \<le> b"
  shows "fold (\<lambda>p (max', pivot). let y = f p in if max' < y then (y, p) else (max', pivot))
           [a..<b]
           (Max (f ` {i..<a}), hd (filter (\<lambda>p. f p = Max (f ` {i..<a})) [i..<a]))
         = (Max (f ` {i..<b}), hd (filter (\<lambda>p. f p = Max (f ` {i..<b})) [i..<b]))"
  using assms(2)
proof (induction b rule: dec_induct)
  case base
  then show ?case by simp
next
  case (step b)
  let ?M = "Max (f ` {i..<b})"
  have ib: "i < b" using assms(1) step.hyps by simp
  have fin: "finite (f ` {i..<b})" "f ` {i..<b} \<noteq> {}"
    using ib by auto
  have mx: "Max (f ` {i..<Suc b}) = max (f b) ?M"
  proof -
    have "{i..<Suc b} = insert b {i..<b}"
      using ib by auto
    then show ?thesis using fin by simp
  qed
  have le: "\<And>p. p \<in> set [i..<b] \<Longrightarrow> f p \<le> ?M"
    using fin by simp
  obtain q where q: "q \<in> {i..<b}" "f q = ?M"
    using Max_in [OF fin] by auto
  have ne: "filter (\<lambda>p. f p = ?M) [i..<b] \<noteq> []"
    using q by (auto simp: filter_empty_conv)
  have u: "[a..<Suc b] = [a..<b] @ [b]"
    using step.hyps by simp
  have u2: "[i..<Suc b] = [i..<b] @ [b]"
    using ib by simp
  show ?case
  proof (cases "?M < f b")
    case True
    have "\<And>p. p \<in> set [i..<b] \<Longrightarrow> f p \<noteq> f b"
      using le True by fastforce
    then have "filter (\<lambda>p. f p = f b) [i..<b] = []"
      unfolding filter_empty_conv by blast
    then show ?thesis
      unfolding u u2 fold_append comp_def step.IH mx using True by (simp add: max_def)
  next
    case False
    then have m: "max (f b) ?M = ?M" by simp
    show ?thesis
      unfolding u u2 fold_append comp_def step.IH mx m using False ne by simp
  qed
qed

lemma find_pivot_spec:
  assumes "i < n"
  shows "find_pivot m i n = (column_max m i n, pivot_row m i n)"
proof -
  let ?f = "\<lambda>p. \<bar>m ! p ! i\<bar>"
  have "[i..<Suc i] = [i]" by simp
  then have s: "(Max (?f ` {i..<Suc i}), hd (filter (\<lambda>p. ?f p = Max (?f ` {i..<Suc i})) [i..<Suc i]))
      = (\<bar>m ! i ! i\<bar>, i)"
    by simp
  from find_pivot_fold [of i "Suc i" n ?f] assms show ?thesis
    unfolding s find_pivot_def column_max_def pivot_row_def by simp
qed

lemma pivot_row_spec:
  assumes "i < n"
  shows "i \<le> pivot_row m i n" "pivot_row m i n < n"
    "\<bar>m ! pivot_row m i n ! i\<bar> = column_max m i n"
    "\<forall>p. i \<le> p \<and> p < n \<longrightarrow> \<bar>m ! p ! i\<bar> \<le> column_max m i n"
proof -
  let ?f = "\<lambda>p. \<bar>m ! p ! i\<bar>"
  have fin: "finite (?f ` {i..<n})" "?f ` {i..<n} \<noteq> {}"
    using assms by auto
  obtain q where q: "q \<in> {i..<n}" "?f q = column_max m i n"
    using Max_in [OF fin] by (auto simp: column_max_def)
  then have ne: "filter (\<lambda>p. ?f p = column_max m i n) [i..<n] \<noteq> []"
    by (auto simp: filter_empty_conv)
  from hd_in_set [OF ne] have "pivot_row m i n \<in> set (filter (\<lambda>p. ?f p = column_max m i n) [i..<n])"
    by (simp add: pivot_row_def)
  then show "i \<le> pivot_row m i n" "pivot_row m i n < n"
    "\<bar>m ! pivot_row m i n ! i\<bar> = column_max m i n"
    by simp_all
  show "\<forall>p. i \<le> p \<and> p < n \<longrightarrow> \<bar>m ! p ! i\<bar> \<le> column_max m i n"
    using fin by (auto simp: column_max_def)
qed

lemma det_loop_steps:
  "fst (det_loop eps n i dt m)
     = (if \<exists>s \<in> set (lup_steps eps n i m). \<not> eps < step_max s then 0
        else dt * (- 1) ^ length (filter step_swapped (lup_steps eps n i m))
               * prod_list (map step_pivot (lup_steps eps n i m)))
   \<and> ((\<forall>s \<in> set (lup_steps eps n i m). eps < step_max s)
        \<longrightarrow> length (lup_steps eps n i m) = n - i)"
proof (induction "n - i" arbitrary: i dt m)
  case 0
  then have "\<not> i < n" by simp
  then show ?case
    by (simp add: det_loop.simps [of eps n i] lup_steps.simps [of eps n i])
next
  case (Suc k)
  then have i: "i < n" by simp
  let ?p = "pivot_row m i n"
  let ?m1 = "if ?p \<noteq> i then swap_rows m i ?p else m"
  let ?m3 = "eliminate n i (scale_column n i ?m1)"
  show ?case
  proof (cases "eps < column_max m i n")
    case False
    then show ?thesis
      using i
      by (simp add: det_loop.simps [of eps n i] lup_steps.simps [of eps n i]
          find_pivot_spec Let_def)
  next
    case True
    have k: "k = n - Suc i" using Suc.hyps(2) by simp
    have d: "det_loop eps n i dt m
        = det_loop eps n (Suc i) ((if ?p \<noteq> i then - dt else dt) * (?m1 ! i ! i)) ?m3"
      using i True
      by (simp add: det_loop.simps [of eps n i dt m] find_pivot_spec Let_def)
    have l: "lup_steps eps n i m
        = \<lparr>step_max = column_max m i n, step_swapped = (?p \<noteq> i),
            step_pivot = ?m1 ! i ! i\<rparr> # lup_steps eps n (Suc i) ?m3"
      using i True
      by (simp add: lup_steps.simps [of eps n i m] Let_def)
    note ih = Suc.hyps(1) [OF k, of "(if ?p \<noteq> i then - dt else dt) * (?m1 ! i ! i)" ?m3]
    show ?thesis
      unfolding d l using ih True i by (auto simp: Suc_diff_Suc)
  qed
qed

lemma det_steps_value:
  assumes "0 < n"
  shows "fst (det eps m n)
     = (if \<exists>s \<in> set (lup_steps eps n 0 m). \<not> eps < step_max s then 0
        else (- 1) ^ length (filter step_swapped (lup_steps eps n 0 m))
               * prod_list (map step_pivot (lup_steps eps n 0 m)))
   \<and> ((\<forall>s \<in> set (lup_steps eps n 0 m). eps < step_max s)
        \<longrightarrow> length (lup_steps eps n 0 m) = n)
   \<and> lup_steps eps n 0 m \<noteq> []"
  using det_loop_steps [of eps n 0 1 m] assms
  by (simp add: det_def lup_steps.simps [of eps n 0 m] Let_def)

section \<open>The ridge matcher\<close>

lemma omit_distinct:
  assumes "distinct xs" "i < length xs"
  shows "set (take i xs @ drop (Suc i) xs) = set xs - {xs ! i}"
    and "distinct (take i xs @ drop (Suc i) xs)"
    and "length (take i xs @ drop (Suc i) xs) = length xs - 1"
proof -
  have xs: "xs = take i xs @ xs ! i # drop (Suc i) xs"
    using assms(2) by (rule id_take_nth_drop)
  have d: "distinct (take i xs @ xs ! i # drop (Suc i) xs)"
    using assms(1) xs by simp
  then show "distinct (take i xs @ drop (Suc i) xs)" by simp
  have "set xs = insert (xs ! i) (set (take i xs @ drop (Suc i) xs))"
    using arg_cong [OF xs, of set] by simp
  moreover have "xs ! i \<notin> set (take i xs @ drop (Suc i) xs)"
    using d by auto
  ultimately show "set (take i xs @ drop (Suc i) xs) = set xs - {xs ! i}" by auto
  show "length (take i xs @ drop (Suc i) xs) = length xs - 1"
    using assms(2) by auto
qed

lemma ridge_eq_subset:
  "ridge_eq fs l r \<longleftrightarrow>
     set (vertices (fs ! ridge_f l)) - {vertices (fs ! ridge_f l) ! ridge_v l}
       \<subseteq> set (vertices (fs ! ridge_f r)) - {vertices (fs ! ridge_f r) ! ridge_v r}"
  by (auto simp: ridge_eq_def Let_def list_all_iff list_ex_iff)

lemma ridge_eq_mset:
  assumes "simplex_ridge d fs l" "simplex_ridge d fs r"
  shows "ridge_eq fs l r \<longleftrightarrow> mset (ridge_handles fs l) = mset (ridge_handles fs r)"
proof -
  let ?L = "vertices (fs ! ridge_f l)" and ?R = "vertices (fs ! ridge_f r)"
  let ?i = "ridge_v l" and ?j = "ridge_v r"
  have L: "distinct ?L" "?i < length ?L" and R: "distinct ?R" "?j < length ?R"
    and len: "length ?L = length ?R"
    using assms by (simp_all add: simplex_ridge_def)
  note oL = omit_distinct [OF L] and oR = omit_distinct [OF R]
  have hl: "ridge_handles fs l = take ?i ?L @ drop (Suc ?i) ?L"
    and hr: "ridge_handles fs r = take ?j ?R @ drop (Suc ?j) ?R"
    by (simp_all add: ridge_handles_def Let_def)
  have cl: "card (set (ridge_handles fs l)) = length ?L - 1"
    unfolding hl using distinct_card [OF oL(2)] oL(3) by simp
  have cr: "card (set (ridge_handles fs r)) = length ?R - 1"
    unfolding hr using distinct_card [OF oR(2)] oR(3) by simp
  have "ridge_eq fs l r \<longleftrightarrow> set (ridge_handles fs l) \<subseteq> set (ridge_handles fs r)"
    unfolding ridge_eq_subset hl hr oL(1) oR(1) ..
  also have "\<dots> \<longleftrightarrow> set (ridge_handles fs l) = set (ridge_handles fs r)"
  proof
    assume "set (ridge_handles fs l) \<subseteq> set (ridge_handles fs r)"
    then show "set (ridge_handles fs l) = set (ridge_handles fs r)"
      using cl cr len by (intro card_subset_eq) simp_all
  qed simp
  also have "\<dots> \<longleftrightarrow> mset (ridge_handles fs l) = mset (ridge_handles fs r)"
    unfolding hl hr using oL(2) oR(2) by (rule set_eq_iff_mset_eq_distinct)
  finally show ?thesis .
qed

lemma neighbours_set_neighbour:
  assumes "g < length fs"
  shows "neighbours (set_neighbour fs f v x ! g)
    = (if g = f then (neighbours (fs ! f))[v := x] else neighbours (fs ! g))"
    and "vertices (set_neighbour fs f v x ! g) = vertices (fs ! g)"
    and "length (set_neighbour fs f v x) = length fs"
  using assms by (cases "g = f"; simp add: set_neighbour_def)+

lemma map_vertices_set_neighbour: "map vertices (set_neighbour fs f v x) = map vertices fs"
proof (rule nth_equalityI)
  show "length (map vertices (set_neighbour fs f v x)) = length (map vertices fs)"
    by (simp add: set_neighbour_def)
next
  fix i assume "i < length (map vertices (set_neighbour fs f v x))"
  then have "i < length fs" by (simp add: set_neighbour_def)
  then show "map vertices (set_neighbour fs f v x) ! i = map vertices fs ! i"
    by (simp add: neighbours_set_neighbour)
qed

lemma upt_0_2: "[0..<2] = [0, 1]"
  by code_simp

lemma upt_0_3: "[0..<3] = [0, 1, 2]"
  by code_simp

lemma xor_fold: "fold (\<lambda>p h. h XOR g p) xs a = a XOR xor_hashes g xs" for a :: nat
proof (induction xs arbitrary: a)
  case Nil
  then show ?case by (simp add: xor_hashes_def)
next
  case (Cons x xs)
  have "fold (\<lambda>p h. h XOR g p) (x # xs) a = (a XOR g x) XOR xor_hashes g xs"
    using Cons [of "a XOR g x"] by simp
  moreover have "xor_hashes g (x # xs) = g x XOR xor_hashes g xs"
    using Cons [of "0 XOR g x"] by (simp add: xor_hashes_def)
  ultimately show ?case by (simp add: ac_simps)
qed

lemma xor_hashes_Cons: "xor_hashes g (x # xs) = g x XOR xor_hashes g xs"
  using xor_fold [of g xs "0 XOR g x"] by (simp add: xor_hashes_def)

lemma xor_hashes_snoc: "xor_hashes g (xs @ [x]) = xor_hashes g xs XOR g x"
  by (simp add: xor_hashes_def)

lemma xor_hashes_mset: "mset xs = mset ys \<Longrightarrow> xor_hashes g xs = xor_hashes g ys"
proof (induction xs arbitrary: ys)
  case Nil
  then show ?case by simp
next
  case (Cons x xs)
  then have "x \<in> set ys"
    using mset_eq_setD [OF Cons.prems] by auto
  then obtain ys1 ys2 where ys: "ys = ys1 @ x # ys2"
    by (auto dest: split_list)
  have "mset xs = mset (ys1 @ ys2)"
    using Cons.prems ys by simp
  from Cons.IH [OF this] have "xor_hashes g xs = xor_hashes g (ys1 @ ys2)" .
  moreover have "xor_hashes g (zs @ ws) = xor_hashes g zs XOR xor_hashes g ws" for zs ws
    using xor_fold [of g ws "xor_hashes g zs"] by (simp add: xor_hashes_def)
  ultimately show ?case
    unfolding ys by (simp add: xor_hashes_Cons ac_simps)
qed

lemma xor_hashes_remove1:
  assumes "x \<in> set xs"
  shows "xor_hashes g xs XOR g x = xor_hashes g (remove1 x xs)"
proof -
  have "mset xs = mset (x # remove1 x xs)"
    using assms by simp
  from xor_hashes_mset [OF this, where g = g]
  have "xor_hashes g xs = g x XOR xor_hashes g (remove1 x xs)"
    by (simp add: xor_hashes_Cons)
  then show ?thesis
    by (simp add: ac_simps flip: xor.assoc)
qed

lemma hash_vertices_fold:
  assumes "k \<le> d" "d \<le> length vh"
  shows "fold (\<lambda>v (ridge_hash', vh).
             if v \<noteq> sk then
               (let hash' = g (vs ! v) in (ridge_hash' XOR hash', vh[v := hash']))
             else (ridge_hash', vh)) [0..<k] (0, vh)
    = (xor_hashes g (map (\<lambda>v. vs ! v) (filter (\<lambda>v. v \<noteq> sk) [0..<k])),
       map (\<lambda>v. if v < k \<and> v \<noteq> sk then g (vs ! v) else vh ! v) [0..<length vh])"
  using assms(1)
proof (induction k)
  case 0
  then show ?case by (simp add: xor_hashes_def map_nth)
next
  case (Suc k)
  let ?W = "\<lambda>k. map (\<lambda>v. if v < k \<and> v \<noteq> sk then g (vs ! v) else vh ! v) [0..<length vh]"
  have k: "k < length vh" using Suc.prems assms(2) by simp
  have w: "(?W k)[k := g (vs ! k)] = ?W (Suc k)" if "k \<noteq> sk"
    using that k by (auto intro!: nth_equalityI simp: nth_list_update less_Suc_eq)
  have w': "?W k = ?W (Suc k)" if "k = sk"
    using that by (auto intro!: nth_equalityI simp: less_Suc_eq)
  from Suc show ?case
    by (auto simp: Let_def xor_hashes_snoc w w')
qed

lemma omit_mset:
  assumes "i < length xs"
  shows "mset (take i xs @ drop (Suc i) xs) = mset xs - {#xs ! i#}"
proof -
  have "xs = take i xs @ xs ! i # drop (Suc i) xs"
    using assms by (rule id_take_nth_drop)
  from arg_cong [OF this, of mset] show ?thesis by simp
qed

lemma hash_vertices_ridge:
  assumes "length vs = d" "distinct vs" "sk < d" "v < d" "v \<noteq> sk" "d \<le> length vh"
    and "hash_vertices d g vs sk vh = (rh, vh')"
  shows "rh XOR vh' ! v
    = xor_hashes g (removeAll (vs ! sk) (take v vs @ drop (Suc v) vs))"
proof -
  obtain d' where d': "d = Suc d'" using assms(3) by (cases d) auto
  note f = hash_vertices_fold [OF order_refl assms(6), where g = g and vs = vs and sk = sk]
  have o: "map (\<lambda>v. vs ! v) (filter (\<lambda>v. v \<noteq> sk) [0..<d]) = take sk vs @ drop (Suc sk) vs"
    unfolding d' using assms(1,3) d' by (intro skip_index) simp_all
  have e: "rh = xor_hashes g (take sk vs @ drop (Suc sk) vs)"
    "vh' = map (\<lambda>v. if v < d \<and> v \<noteq> sk then g (vs ! v) else vh ! v) [0..<length vh]"
    using assms(7) f o by (simp_all add: hash_vertices_def)
  have rh: "rh = xor_hashes g (take sk vs @ drop (Suc sk) vs)"
    by (rule e(1))
  have vh: "vh' ! v = g (vs ! v)"
    unfolding e(2) using assms(4,5,6) by simp
  have l: "sk < length vs" "v < length vs"
    using assms(1,3,4) by simp_all
  have ne: "vs ! v \<noteq> vs ! sk"
    using assms(2,5) l by (simp add: nth_eq_iff_index_eq)
  have "vs ! v \<in> set (take sk vs @ drop (Suc sk) vs)"
    unfolding omit_distinct(1) [OF assms(2) l(1)] using l(2) ne by simp
  from xor_hashes_remove1 [OF this, where g = g]
  have "rh XOR vh' ! v = xor_hashes g (remove1 (vs ! v) (take sk vs @ drop (Suc sk) vs))"
    unfolding rh vh .
  also have "\<dots> = xor_hashes g (removeAll (vs ! sk) (take v vs @ drop (Suc v) vs))"
  proof (rule xor_hashes_mset)
    have "mset (remove1 (vs ! v) (take sk vs @ drop (Suc sk) vs))
        = mset (take sk vs @ drop (Suc sk) vs) - {#vs ! v#}"
      by (rule mset_remove1)
    also have "\<dots> = mset vs - {#vs ! sk#} - {#vs ! v#}"
      by (simp only: omit_mset [OF l(1)])
    finally have a: "mset (remove1 (vs ! v) (take sk vs @ drop (Suc sk) vs))
        = mset vs - {#vs ! sk#} - {#vs ! v#}" .
    have "removeAll (vs ! sk) (take v vs @ drop (Suc v) vs)
        = remove1 (vs ! sk) (take v vs @ drop (Suc v) vs)"
      using omit_distinct(2) [OF assms(2) l(2)] by (simp only: distinct_remove1_removeAll)
    then have "mset (removeAll (vs ! sk) (take v vs @ drop (Suc v) vs))
        = mset (take v vs @ drop (Suc v) vs) - {#vs ! sk#}"
      by (simp only: mset_remove1)
    also have "\<dots> = mset vs - {#vs ! v#} - {#vs ! sk#}"
      by (simp only: omit_mset [OF l(2)])
    finally have b: "mset (removeAll (vs ! sk) (take v vs @ drop (Suc v) vs))
        = mset vs - {#vs ! v#} - {#vs ! sk#}" .
    show "mset (remove1 (vs ! v) (take sk vs @ drop (Suc sk) vs))
        = mset (removeAll (vs ! sk) (take v vs @ drop (Suc v) vs))"
      unfolding a b by (rule diff_right_commute)
  qed
  finally show ?thesis .
qed

lemma pending_match:
  assumes "pending d g apex fs l" "pending d g apex fs r"
  shows "(bucket (ridge_hash r) = bucket (ridge_hash l) \<and> ridge_eq fs l r)
      \<longleftrightarrow> ridges_match fs l r"
    and "ridge_eq fs l r \<longleftrightarrow> ridge_eq fs r l"
proof -
  have s: "simplex_ridge d fs l" "simplex_ridge d fs r"
    using assms by (simp_all add: pending_def)
  have h: "ridge_hash l = ridge_hash r"
    if "mset (ridge_handles fs l) = mset (ridge_handles fs r)"
  proof -
    have "mset (removeAll apex (ridge_handles fs l)) = mset (removeAll apex (ridge_handles fs r))"
      using that by (simp add: removeAll_filter_not_eq)
    from xor_hashes_mset [OF this, where g = g] show ?thesis
      using assms by (simp add: pending_def)
  qed
  show "(bucket (ridge_hash r) = bucket (ridge_hash l) \<and> ridge_eq fs l r)
      \<longleftrightarrow> ridges_match fs l r"
    using ridge_eq_mset [OF s] h by (auto simp: ridges_match_def)
  show "ridge_eq fs l r \<longleftrightarrow> ridge_eq fs r l"
    using ridge_eq_mset [OF s] ridge_eq_mset [OF s(2,1)] by auto
qed

lemma pending_set_neighbour:
  "pending d g apex (set_neighbour fs f v x) e \<longleftrightarrow> pending d g apex fs e"
proof (cases "ridge_f e < length fs")
  case True
  have "vertices (set_neighbour fs f v x ! ridge_f e) = vertices (fs ! ridge_f e)"
    "length (neighbours (set_neighbour fs f v x ! ridge_f e))
      = length (neighbours (fs ! ridge_f e))"
    "length (set_neighbour fs f v x) = length fs"
    using True by (simp_all add: neighbours_set_neighbour)
  then show ?thesis
    by (simp add: pending_def simplex_ridge_def ridge_handles_def)
next
  case False
  then show ?thesis
    by (simp add: pending_def simplex_ridge_def set_neighbour_def)
qed

lemma ridges_match_sym: "ridges_match fs a b \<longleftrightarrow> ridges_match fs b a"
  by (auto simp: ridges_match_def)

lemma ridges_match_set_neighbour:
  "ridges_match (set_neighbour fs f v x) a b \<longleftrightarrow> ridges_match fs a b"
proof -
  have "vertices (set_neighbour fs f v x ! g) = vertices (fs ! g)" for g
    by (cases "g = f"; cases "f < length fs")
      (simp_all add: set_neighbour_def list_update_beyond not_less)
  then show ?thesis
    by (simp add: ridges_match_def ridge_handles_def)
qed

lemma unmatched_find:
  assumes "unmatched fs urs" "e \<in> set urs" "ridges_match fs r e"
    and "\<forall>a \<in> set urs. \<forall>b \<in> set urs. ridges_match fs r a \<and> ridges_match fs r b
           \<longrightarrow> ridges_match fs a b"
  shows "find (ridges_match fs r) urs = Some e"
proof -
  from assms(2,3) obtain e' where e': "find (ridges_match fs r) urs = Some e'"
    by (cases "find (ridges_match fs r) urs") (auto simp: find_None_iff)
  then have "e' \<in> set urs" "ridges_match fs r e'"
    by (auto simp: find_Some_iff)
  with assms have "e' = e"
    unfolding unmatched_def by blast
  with e' show ?thesis by simp
qed

lemma ridges_match_trans:
  "ridges_match fs r a \<Longrightarrow> ridges_match fs r b \<Longrightarrow> ridges_match fs a b"
  by (auto simp: ridges_match_def)

text \<open>
  Claim C4.  Let \<open>find_adjacent_facets\<close> work on a new facet \<open>f\<close>, a simplex with
  the apex at the position \<open>sk\<close>, while the set holds pending records of the
  round of this apex, and let \<open>v\<close> be another position of the facet.  The record
  that the second loop builds for \<open>v\<close>, with the hash that the first loop computed,
  is again such a record.  The test of the set lookup, in whatever way the library
  maps hashes to buckets, holds between it and a pending record if and only if their
  hashes are equal and their handles without the omitted vertices are equal as
  multisets; at most one pending record matches, so that the order in which the
  library looks through the set does not matter.  When no pending record matches, the
  new record becomes pending.  When one does, the neighbours entry of each of the two
  facets at its ridge position is set to the index of the other facet, the pending
  record is erased, and no vertex and no other neighbours entry changes.  The records
  that the set holds afterwards are pending records of the round, no two of which
  match.
\<close>

theorem link_ridge_pairs:
  assumes "f < length fs" and "length (vertices (fs ! f)) = d"
    and "distinct (vertices (fs ! f))" and "length (neighbours (fs ! f)) = d"
    and "sk < d" and "v < d" and "v \<noteq> sk" and "d \<le> length vh"
    and "\<forall>e \<in> set urs. pending d point_hash (vertices (fs ! f) ! sk) fs e"
    and "hash_vertices d point_hash (vertices (fs ! f)) sk vh = (rh, vh')"
    and "unmatched fs urs"
  shows "let r = \<lparr>ridge_f = f, ridge_v = v, ridge_hash = rh XOR vh' ! v\<rparr>;
             st = link_ridge bucket f v (rh XOR vh' ! v) (fs, urs)
         in pending d point_hash (vertices (fs ! f) ! sk) fs r
    \<and> (\<forall>e \<in> set urs. (bucket (ridge_hash e) = bucket (ridge_hash r) \<and> ridge_eq fs r e)
           \<longleftrightarrow> ridges_match fs r e)
    \<and> (\<forall>e \<in> set urs. ridges_match fs r e \<longrightarrow> find (ridges_match fs r) urs = Some e)
    \<and> (case find (ridges_match fs r) urs of
         None \<Rightarrow> st = (fs, urs @ [r])
       | Some e \<Rightarrow>
           snd st = remove1 e urs
           \<and> neighbours (fst st ! ridge_f e) ! ridge_v e = f
           \<and> neighbours (fst st ! f) ! v = ridge_f e
           \<and> map vertices (fst st) = map vertices fs
           \<and> (\<forall>g i. (g, i) \<noteq> (f, v) \<and> (g, i) \<noteq> (ridge_f e, ridge_v e) \<and> g < length fs
                 \<longrightarrow> neighbours (fst st ! g) ! i = neighbours (fs ! g) ! i))
    \<and> (\<forall>e \<in> set (snd st). pending d point_hash (vertices (fs ! f) ! sk) (fst st) e)
    \<and> unmatched (fst st) (snd st)"
proof -
  let ?vs = "vertices (fs ! f)"
  let ?apex = "?vs ! sk"
  let ?r = "\<lparr>ridge_f = f, ridge_v = v, ridge_hash = rh XOR vh' ! v\<rparr>"
  let ?st = "link_ridge bucket f v (rh XOR vh' ! v) (fs, urs)"
  have l: "sk < length ?vs" "v < length ?vs"
    using assms(2,5,6) by simp_all
  have ne: "?vs ! sk \<noteq> ?vs ! v"
    using assms(3,7) l by (simp add: nth_eq_iff_index_eq)
  have pr: "pending d point_hash ?apex fs ?r"
    using hash_vertices_ridge [OF assms(2,3,5,6,7,8,10)] assms(1,2,3,4,6) l ne
      omit_distinct(1) [OF assms(3) l(2)]
    by (simp add: pending_def simplex_ridge_def ridge_handles_def Let_def)
  have m: "(bucket (ridge_hash e) = bucket (ridge_hash ?r) \<and> ridge_eq fs ?r e)
      \<longleftrightarrow> ridges_match fs ?r e" if "e \<in> set urs" for e
    using pending_match(1) [OF pr, where r = e and bucket = bucket] assms(9) that by blast
  have fr: "find_ridge bucket fs urs ?r = find (ridges_match fs ?r) urs"
    unfolding find_ridge_def by (rule find_cong [OF refl]) (rule m)
  have f: "f < length fs" "v < length (neighbours (fs ! f))"
    using assms(1,4,6) by simp_all
  have uq: "find (ridges_match fs ?r) urs = Some e" if "e \<in> set urs" "ridges_match fs ?r e" for e
    using unmatched_find [OF assms(11) that] ridges_match_trans [of fs ?r] by blast
  have out: "(case find (ridges_match fs ?r) urs of
         None \<Rightarrow> ?st = (fs, urs @ [?r])
       | Some e \<Rightarrow>
           snd ?st = remove1 e urs
           \<and> neighbours (fst ?st ! ridge_f e) ! ridge_v e = f
           \<and> neighbours (fst ?st ! f) ! v = ridge_f e
           \<and> map vertices (fst ?st) = map vertices fs
           \<and> (\<forall>g i. (g, i) \<noteq> (f, v) \<and> (g, i) \<noteq> (ridge_f e, ridge_v e) \<and> g < length fs
                 \<longrightarrow> neighbours (fst ?st ! g) ! i = neighbours (fs ! g) ! i))
    \<and> (\<forall>e \<in> set (snd ?st). pending d point_hash ?apex (fst ?st) e)
    \<and> unmatched (fst ?st) (snd ?st)"
  proof (cases "find (ridges_match fs ?r) urs")
    case None
    then have no: "\<And>e. e \<in> set urs \<Longrightarrow> \<not> ridges_match fs ?r e"
      by (auto simp: find_None_iff)
    have "ridges_match fs ?r ?r"
      by (simp add: ridges_match_def)
    with no have "?r \<notin> set urs" by blast
    moreover have "\<not> ridges_match fs e ?r" if "e \<in> set urs" for e
      using no [OF that] ridges_match_sym [of fs e ?r] by simp
    ultimately have u: "unmatched fs (urs @ [?r])"
      using assms(11) no unfolding unmatched_def by auto
    have lk: "?st = (fs, urs @ [?r])"
      using fr None by (simp add: link_ridge_def)
    show ?thesis
      unfolding None lk using pr assms(9) u by simp
  next
    case (Some e)
    then have "e \<in> set urs"
      by (auto simp: find_Some_iff)
    then have e: "ridge_f e < length fs" "ridge_v e < length (neighbours (fs ! ridge_f e))"
      using assms(9) by (auto simp: pending_def simplex_ridge_def)
    let ?fs1 = "set_neighbour fs (ridge_f e) (ridge_v e) f"
    let ?fs2 = "set_neighbour ?fs1 f v (ridge_f e)"
    have lk: "?st = (?fs2, remove1 e urs)"
      using fr Some by (simp add: link_ridge_def)
    have l1: "length ?fs1 = length fs"
      by (simp add: set_neighbour_def)
    have n: "neighbours (?fs2 ! g)
        = (if g = f then (neighbours (?fs1 ! f))[v := ridge_f e] else neighbours (?fs1 ! g))"
      "neighbours (?fs1 ! g)
        = (if g = ridge_f e then (neighbours (fs ! ridge_f e))[ridge_v e := f]
           else neighbours (fs ! g))"
      if "g < length fs" for g
      using that neighbours_set_neighbour(1) [of g ?fs1 f v "ridge_f e"]
        neighbours_set_neighbour(1) [of g fs "ridge_f e" "ridge_v e" f] l1
      by simp_all
    have a: "neighbours (?fs2 ! ridge_f e) ! ridge_v e = f"
      using n [OF e(1)] n(2) [OF f(1)] e f by (auto simp: nth_list_update)
    have b: "neighbours (?fs2 ! f) ! v = ridge_f e"
      using n [OF f(1)] e f by (auto simp: nth_list_update)
    have c: "map vertices ?fs2 = map vertices fs"
      by (simp add: map_vertices_set_neighbour)
    have d: "\<forall>g i. (g, i) \<noteq> (f, v) \<and> (g, i) \<noteq> (ridge_f e, ridge_v e) \<and> g < length fs
                 \<longrightarrow> neighbours (?fs2 ! g) ! i = neighbours (fs ! g) ! i"
      using n by (auto simp: nth_list_update)
    have p: "\<forall>x \<in> set (remove1 e urs). pending d point_hash ?apex ?fs2 x"
      using assms(9) by (auto simp: pending_set_neighbour dest: notin_set_remove1)
    have u: "unmatched ?fs2 (remove1 e urs)"
      using assms(11) unfolding unmatched_def ridges_match_set_neighbour
      by (auto dest: notin_set_remove1)
    show ?thesis
      unfolding Some lk using a b c d p u by simp
  qed
  from pr m uq out show ?thesis
    unfolding Let_def by blast
qed

theorem link_ridge_pairs_witness:
  "hash_vertices 3 id [9::nat, 2, 3] 0 [0, 0, 0] = (1, [0, 2, 3])
   \<and> unmatched
        [\<lparr>vertices = [9::nat, 1, 2], neighbours = [7, 7, 7], outside = [], coplanar = [], normal = [0, 0, 0], D = 0\<rparr>,
         \<lparr>vertices = [9, 2, 3], neighbours = [7, 7, 7], outside = [], coplanar = [], normal = [0, 0, 0], D = 0\<rparr>]
        [\<lparr>ridge_f = 0, ridge_v = 1, ridge_hash = 2\<rparr>, \<lparr>ridge_f = 0, ridge_v = 2, ridge_hash = 1\<rparr>,
         \<lparr>ridge_f = 1, ridge_v = 1, ridge_hash = 3\<rparr>]
   \<and> list_all (pending 3 id 9
        [\<lparr>vertices = [9::nat, 1, 2], neighbours = [7, 7, 7], outside = [], coplanar = [], normal = [0, 0, 0], D = 0\<rparr>,
         \<lparr>vertices = [9, 2, 3], neighbours = [7, 7, 7], outside = [], coplanar = [], normal = [0, 0, 0], D = 0\<rparr>])
        [\<lparr>ridge_f = 0, ridge_v = 1, ridge_hash = 2\<rparr>, \<lparr>ridge_f = 0, ridge_v = 2, ridge_hash = 1\<rparr>,
         \<lparr>ridge_f = 1, ridge_v = 1, ridge_hash = 3\<rparr>]
   \<and> link_ridge (\<lambda>h. h mod 2) 1 2 (1 XOR [0, 2, 3] ! 2)
        ([\<lparr>vertices = [9::nat, 1, 2], neighbours = [7, 7, 7], outside = [], coplanar = [], normal = [0, 0, 0], D = 0\<rparr>,
          \<lparr>vertices = [9, 2, 3], neighbours = [7, 7, 7], outside = [], coplanar = [], normal = [0, 0, 0], D = 0\<rparr>],
         [\<lparr>ridge_f = 0, ridge_v = 1, ridge_hash = 2\<rparr>, \<lparr>ridge_f = 0, ridge_v = 2, ridge_hash = 1\<rparr>,
          \<lparr>ridge_f = 1, ridge_v = 1, ridge_hash = 3\<rparr>])
      = ([\<lparr>vertices = [9::nat, 1, 2], neighbours = [7, 1, 7], outside = [], coplanar = [], normal = [0, 0, 0], D = 0\<rparr>,
          \<lparr>vertices = [9, 2, 3], neighbours = [7, 7, 0], outside = [], coplanar = [], normal = [0, 0, 0], D = 0\<rparr>],
         [\<lparr>ridge_f = 0, ridge_v = 2, ridge_hash = 1\<rparr>, \<lparr>ridge_f = 1, ridge_v = 1, ridge_hash = 3\<rparr>])
   \<and> list_all (pending 3 id 9
        [\<lparr>vertices = [9::nat, 1, 2], neighbours = [7, 1, 7], outside = [], coplanar = [], normal = [0, 0, 0], D = 0\<rparr>,
         \<lparr>vertices = [9, 2, 3], neighbours = [7, 7, 0], outside = [], coplanar = [], normal = [0, 0, 0], D = 0\<rparr>])
        [\<lparr>ridge_f = 0, ridge_v = 2, ridge_hash = 1\<rparr>, \<lparr>ridge_f = 1, ridge_v = 1, ridge_hash = 3\<rparr>]
   \<and> facets (find_adjacent_facets 3 id (\<lambda>h. h mod 2) 1 0
        (find_adjacent_facets 3 id (\<lambda>h. h mod 2) 0 0
          ((quick_hull_init 3 :: nat quick_hull)\<lparr>facets :=
            [\<lparr>vertices = [9::nat, 1, 2], neighbours = [7, 7, 7], outside = [], coplanar = [], normal = [0, 0, 0], D = 0\<rparr>,
             \<lparr>vertices = [9, 2, 3], neighbours = [7, 7, 7], outside = [], coplanar = [], normal = [0, 0, 0], D = 0\<rparr>]\<rparr>)))
      = [\<lparr>vertices = [9::nat, 1, 2], neighbours = [7, 1, 7], outside = [], coplanar = [], normal = [0, 0, 0], D = 0\<rparr>,
         \<lparr>vertices = [9, 2, 3], neighbours = [7, 7, 0], outside = [], coplanar = [], normal = [0, 0, 0], D = 0\<rparr>]
   \<and> unique_ridges (find_adjacent_facets 3 id (\<lambda>h. h mod 2) 1 0
        (find_adjacent_facets 3 id (\<lambda>h. h mod 2) 0 0
          ((quick_hull_init 3 :: nat quick_hull)\<lparr>facets :=
            [\<lparr>vertices = [9::nat, 1, 2], neighbours = [7, 7, 7], outside = [], coplanar = [], normal = [0, 0, 0], D = 0\<rparr>,
             \<lparr>vertices = [9, 2, 3], neighbours = [7, 7, 7], outside = [], coplanar = [], normal = [0, 0, 0], D = 0\<rparr>]\<rparr>)))
      = [\<lparr>ridge_f = 0, ridge_v = 2, ridge_hash = 1\<rparr>, \<lparr>ridge_f = 1, ridge_v = 1, ridge_hash = 3\<rparr>]"
proof -
  let ?fs = "[\<lparr>vertices = [9::nat, 1, 2], neighbours = [7, 7, 7], outside = [], coplanar = [], normal = [0, 0, 0], D = 0\<rparr>,
         \<lparr>vertices = [9, 2, 3], neighbours = [7, 7, 7], outside = [], coplanar = [], normal = [0, 0, 0], D = 0\<rparr>]"
  let ?urs = "[\<lparr>ridge_f = 0, ridge_v = 1, ridge_hash = 2\<rparr>, \<lparr>ridge_f = 0, ridge_v = 2, ridge_hash = 1\<rparr>,
         \<lparr>ridge_f = 1, ridge_v = 1, ridge_hash = 3\<rparr>]"
  have hv: "hash_vertices 3 id (vertices (?fs ! 1)) 0 [0, 0, 0] = (1, [0, 2, 3])"
    by (simp add: hash_vertices_def upt_0_3)
  have p: "\<forall>e \<in> set ?urs. pending 3 id (vertices (?fs ! 1) ! 0) ?fs e"
    by (simp add: pending_def simplex_ridge_def ridge_handles_def xor_hashes_def)
  have u: "unmatched ?fs ?urs"
    by (simp add: unmatched_def ridges_match_def ridge_handles_def)
  have c: "facets (find_adjacent_facets 3 id (\<lambda>h. h mod 2) 1 0
        (find_adjacent_facets 3 id (\<lambda>h. h mod 2) 0 0
          ((quick_hull_init 3 :: nat quick_hull)\<lparr>facets := ?fs\<rparr>)))
      = [\<lparr>vertices = [9::nat, 1, 2], neighbours = [7, 1, 7], outside = [], coplanar = [], normal = [0, 0, 0], D = 0\<rparr>,
         \<lparr>vertices = [9, 2, 3], neighbours = [7, 7, 0], outside = [], coplanar = [], normal = [0, 0, 0], D = 0\<rparr>]"
    "unique_ridges (find_adjacent_facets 3 id (\<lambda>h. h mod 2) 1 0
        (find_adjacent_facets 3 id (\<lambda>h. h mod 2) 0 0
          ((quick_hull_init 3 :: nat quick_hull)\<lparr>facets := ?fs\<rparr>)))
      = [\<lparr>ridge_f = 0, ridge_v = 2, ridge_hash = 1\<rparr>, \<lparr>ridge_f = 1, ridge_v = 1, ridge_hash = 3\<rparr>]"
    by (simp_all add: find_adjacent_facets_def hash_vertices_def link_ridge_def find_ridge_def
        ridge_eq_def set_neighbour_def quick_hull_init_def upt_0_3 Let_def)
  from link_ridge_pairs [where fs = "?fs" and f = 1 and d = 3 and sk = 0 and v = 2
      and vh = "[0, 0, 0]" and urs = "?urs" and point_hash = id and rh = 1
      and vh' = "[0, 2, 3]" and bucket = "\<lambda>h. h mod 2", OF _ _ _ _ _ _ _ _ p hv u]
  show ?thesis
    using hv p c u
    by (simp add: Let_def ridges_match_def ridge_handles_def list_all_iff link_ridge_def
        find_ridge_def ridge_eq_def set_neighbour_def pending_def simplex_ridge_def
        xor_hashes_def)
qed

section \<open>The hypervolume\<close>

lemma has_block_leading: "has_block n m \<Longrightarrow> has_block n (leading n m)"
  by (simp add: has_block_def leading_def)

lemma leading_nth:
  "has_block n m \<Longrightarrow> j < n \<Longrightarrow> k < n \<Longrightarrow> leading n m ! j ! k = m ! j ! k"
  by (simp add: has_block_def leading_def)

lemma has_block_set_entry: "has_block n m \<Longrightarrow> has_block n (set_entry m j k x)"
proof (cases "j < length m")
  case True
  assume "has_block n m"
  with True show ?thesis
    by (auto simp: has_block_def set_entry_def nth_list_update)
next
  case False
  assume "has_block n m"
  with False show ?thesis
    by (simp add: set_entry_def list_update_beyond)
qed

lemma leading_set_entry:
  assumes "has_block n m" "j < n" "k < n"
  shows "leading n (set_entry m j k x) = set_entry (leading n m) j k x"
proof -
  have "take n ((m ! j)[k := x]) = (take n (m ! j))[k := x]"
    using assms by (simp add: take_update_swap)
  then show ?thesis
    using assms
    by (simp add: leading_def set_entry_def has_block_def take_update_swap map_update)
qed

lemma fold_leading:
  assumes "\<And>x m. x \<in> set xs \<Longrightarrow> has_block n m
      \<Longrightarrow> has_block n (g x m) \<and> leading n (g x m) = g x (leading n m)"
    and "has_block n m"
  shows "has_block n (fold g xs m) \<and> leading n (fold g xs m) = fold g xs (leading n m)"
  using assms
proof (induction xs arbitrary: m)
  case Nil
  then show ?case by simp
next
  case (Cons x xs)
  have s: "has_block n (g x m)" "leading n (g x m) = g x (leading n m)"
    using Cons.prems(1) [of x m] Cons.prems(2) by simp_all
  have "has_block n (fold g xs (g x m))
      \<and> leading n (fold g xs (g x m)) = fold g xs (leading n (g x m))"
    by (rule Cons.IH) (use Cons.prems(1) s(1) in auto)
  then show ?case
    by (simp add: s(2))
qed

lemma scale_column_leading:
  assumes "has_block n m" "i < n"
  shows "has_block n (scale_column n i m)"
    and "leading n (scale_column n i m) = scale_column n i (leading n m)"
proof -
  have "has_block n (scale_column n i m)
      \<and> leading n (scale_column n i m) = scale_column n i (leading n m)"
    unfolding scale_column_def
  proof (rule fold_leading [OF _ assms(1)])
    fix j m'
    assume j: "j \<in> set [Suc i..<n]" and b: "has_block n m'"
    then have "j < n" by simp
    then show "has_block n (set_entry m' j i (m' ! j ! i / m' ! i ! i))
        \<and> leading n (set_entry m' j i (m' ! j ! i / m' ! i ! i))
          = set_entry (leading n m') j i (leading n m' ! j ! i / leading n m' ! i ! i)"
      using b assms(2)
      by (simp add: has_block_set_entry leading_set_entry leading_nth)
  qed
  then show "has_block n (scale_column n i m)"
    and "leading n (scale_column n i m) = scale_column n i (leading n m)"
    by simp_all
qed

lemma eliminate_leading:
  assumes "has_block n m" "i < n"
  shows "has_block n (eliminate n i m)"
    and "leading n (eliminate n i m) = eliminate n i (leading n m)"
proof -
  have "has_block n (eliminate n i m)
      \<and> leading n (eliminate n i m) = eliminate n i (leading n m)"
    unfolding eliminate_def
  proof (rule fold_leading [OF _ assms(1)])
    fix j m'
    assume j: "j \<in> set [Suc i..<n]" and b: "has_block n m'"
    then have jn: "j < n" by simp
    show "has_block n (fold (\<lambda>k m. set_entry m j k (m ! j ! k - m ! j ! i * m ! i ! k))
                          [Suc i..<n] m')
        \<and> leading n (fold (\<lambda>k m. set_entry m j k (m ! j ! k - m ! j ! i * m ! i ! k))
                          [Suc i..<n] m')
          = fold (\<lambda>k m. set_entry m j k (m ! j ! k - m ! j ! i * m ! i ! k))
              [Suc i..<n] (leading n m')"
    proof (rule fold_leading [OF _ b])
      fix k m''
      assume k: "k \<in> set [Suc i..<n]" and b': "has_block n m''"
      then have "k < n" by simp
      then show "has_block n (set_entry m'' j k (m'' ! j ! k - m'' ! j ! i * m'' ! i ! k))
        \<and> leading n (set_entry m'' j k (m'' ! j ! k - m'' ! j ! i * m'' ! i ! k))
          = set_entry (leading n m'') j k
              (leading n m'' ! j ! k - leading n m'' ! j ! i * leading n m'' ! i ! k)"
        using b' jn assms(2)
        by (simp add: has_block_set_entry leading_set_entry leading_nth)
    qed
  qed
  then show "has_block n (eliminate n i m)"
    and "leading n (eliminate n i m) = eliminate n i (leading n m)"
    by simp_all
qed

lemma swap_rows_leading:
  assumes "has_block n m" "i < n" "p < n"
  shows "has_block n (swap_rows m i p)"
    and "leading n (swap_rows m i p) = swap_rows (leading n m) i p"
proof -
  show "has_block n (swap_rows m i p)"
    using assms by (auto simp: has_block_def swap_rows_def nth_list_update)
  show "leading n (swap_rows m i p) = swap_rows (leading n m) i p"
    using assms
    by (simp add: leading_def swap_rows_def has_block_def take_update_swap map_update)
qed

lemma find_pivot_leading:
  assumes "has_block n m" "i < n"
  shows "find_pivot (leading n m) i n = find_pivot m i n"
proof -
  have "column_max (leading n m) i n = column_max m i n"
    unfolding column_max_def
    by (rule arg_cong [of _ _ Max], rule image_cong [OF refl])
      (use assms in \<open>simp add: leading_nth\<close>)
  moreover from this have "pivot_row (leading n m) i n = pivot_row m i n"
    unfolding pivot_row_def
    by (intro arg_cong [of _ _ hd] filter_cong [OF refl])
      (use assms in \<open>simp add: leading_nth\<close>)
  ultimately show ?thesis
    using assms(2) by (simp add: find_pivot_spec)
qed

lemma det_loop_leading:
  assumes "has_block n m"
  shows "fst (det_loop eps n i dt (leading n m)) = fst (det_loop eps n i dt m)"
  using assms
proof (induction "n - i" arbitrary: i dt m)
  case 0
  then have "\<not> i < n" by simp
  then show ?case
    by (simp add: det_loop.simps [of eps n i])
next
  case (Suc k)
  then have i: "i < n" by simp
  have k: "k = n - Suc i" using Suc.hyps(2) by simp
  let ?p = "pivot_row m i n"
  have p: "?p < n" using pivot_row_spec(2) [OF i] .
  let ?m1 = "if ?p \<noteq> i then swap_rows m i ?p else m"
  let ?m3 = "eliminate n i (scale_column n i ?m1)"
  have b1: "has_block n ?m1"
    using swap_rows_leading(1) [OF Suc.prems i p] Suc.prems by simp
  have l1: "leading n ?m1 = (if ?p \<noteq> i then swap_rows (leading n m) i ?p else leading n m)"
    using swap_rows_leading(2) [OF Suc.prems i p] by simp
  have b2: "has_block n (scale_column n i ?m1)"
    using scale_column_leading(1) [OF b1 i] .
  have b3: "has_block n ?m3"
    using eliminate_leading(1) [OF b2 i] .
  have l3: "leading n ?m3 = eliminate n i (scale_column n i (leading n ?m1))"
    using eliminate_leading(2) [OF b2 i] scale_column_leading(2) [OF b1 i] by simp
  have d1: "leading n ?m1 ! i ! i = ?m1 ! i ! i"
    using leading_nth [OF b1 i i] .
  have fp: "find_pivot (leading n m) i n = (column_max m i n, ?p)"
    using find_pivot_leading [OF Suc.prems i] find_pivot_spec [OF i] by simp
  show ?case
  proof (cases "eps < column_max m i n")
    case False
    then show ?thesis
      using i fp find_pivot_spec [OF i, of m]
      by (simp add: det_loop.simps [of eps n i])
  next
    case True
    have "fst (det_loop eps n i dt (leading n m))
        = fst (det_loop eps n (Suc i) ((if ?p \<noteq> i then - dt else dt) * (?m1 ! i ! i))
                 (leading n ?m3))"
      using i True fp l1 l3 d1
      by (simp add: det_loop.simps [of eps n i dt "leading n m"] Let_def)
    also have "\<dots> = fst (det_loop eps n (Suc i) ((if ?p \<noteq> i then - dt else dt) * (?m1 ! i ! i))
                 ?m3)"
      by (rule Suc.hyps(1) [OF k b3])
    also have "\<dots> = fst (det_loop eps n i dt m)"
      using i True find_pivot_spec [OF i, of m]
      by (simp add: det_loop.simps [of eps n i dt m] Let_def)
    finally show ?thesis .
  qed
qed

lemma det_leading: "has_block n m \<Longrightarrow> fst (det eps (leading n m) n) = fst (det eps m n)"
  by (simp add: det_def det_loop_leading)

lemma fold_rows:
  assumes "k \<le> length m"
  shows "fold (\<lambda>r m. m[r := F r (m ! r)]) [0..<k] m = map (\<lambda>r. F r (m ! r)) [0..<k] @ drop k m"
  using assms
proof (induction k)
  case 0
  then show ?case by simp
next
  case (Suc k)
  let ?M = "map (\<lambda>r. F r (m ! r)) [0..<k] @ drop k m"
  have ih: "fold (\<lambda>r m. m[r := F r (m ! r)]) [0..<k] m = ?M"
    using Suc by simp
  have k: "k < length m" using Suc.prems by simp
  have d: "drop k m = m ! k # drop (Suc k) m"
    using k by (simp add: Cons_nth_drop_Suc)
  have "?M ! k = m ! k"
    by (simp add: nth_append d)
  moreover have "?M[k := x] = map (\<lambda>r. F r (m ! r)) [0..<k] @ x # drop (Suc k) m" for x
    by (simp add: list_update_append d)
  ultimately show ?case
    by (simp add: ih)
qed

lemma fold_set_entry_row:
  assumes "rr < length s"
  shows "fold (\<lambda>c s. set_entry s rr c (G c)) cs s
    = s[rr := fold (\<lambda>c row. row[c := G c]) cs (s ! rr)]"
  using assms
proof (induction cs arbitrary: s)
  case Nil
  then show ?case by simp
next
  case (Cons c cs)
  have "length (set_entry s rr c (G c)) = length s"
    by (simp add: set_entry_def)
  with Cons show ?case
    by (simp add: set_entry_def)
qed

lemma matrix_sqr_rows:
  assumes "n \<le> length s" "\<forall>r<n. n \<le> length (s ! r)"
  shows "matrix_sqr n m s
    = map (\<lambda>r. map (\<lambda>c. inner_product (m ! r) (m ! c) 0) [0..<n] @ drop n (s ! r)) [0..<n]
      @ drop n s"
proof -
  let ?G = "\<lambda>r c. inner_product (m ! r) (m ! c) 0"
  let ?F = "\<lambda>r row. map (?G r) [0..<n] @ drop n row"
  have inner: "fold (\<lambda>c s. set_entry s r c (?G r c)) [0..<n] s' = s'[r := ?F r (s' ! r)]"
    if "r < length s'" "n \<le> length (s' ! r)" for r s'
    using fold_set_entry_row [OF that(1), of "?G r" "[0..<n]"]
      fold_rows [OF that(2), of "\<lambda>c x. ?G r c"] by simp
  have "fold (\<lambda>r s. fold (\<lambda>c s. set_entry s r c (?G r c)) [0..<n] s) [0..<k] s
      = fold (\<lambda>r s. s[r := ?F r (s ! r)]) [0..<k] s" if "k \<le> n" for k
    using that
  proof (induction k)
    case 0
    then show ?case by simp
  next
    case (Suc k)
    let ?s = "fold (\<lambda>r s. s[r := ?F r (s ! r)]) [0..<k] s"
    have e: "?s = map (\<lambda>r. ?F r (s ! r)) [0..<k] @ drop k s"
      using Suc.prems assms(1) by (intro fold_rows) simp
    have k: "k < length s" using Suc.prems assms(1) by simp
    have "?s ! k = s ! k"
      unfolding e using k by (simp add: nth_append)
    then have "k < length ?s" "n \<le> length (?s ! k)"
      using k assms(2) Suc.prems by (simp_all add: e)
    from inner [OF this] Suc show ?case by simp
  qed
  from this [of n] show ?thesis
    unfolding matrix_sqr_def using fold_rows [OF assms(1), of ?F] by simp
qed

lemma inner_product_sum:
  "length xs \<le> length ys \<Longrightarrow>
     inner_product xs ys a = a + (\<Sum>i<length xs. xs ! i * ys ! i)"
proof (induction xs arbitrary: ys a)
  case Nil
  then show ?case by simp
next
  case (Cons x xs)
  then obtain y ys' where ys: "ys = y # ys'" by (cases ys) auto
  with Cons.prems have "length xs \<le> length ys'" by simp
  from Cons.IH [OF this, of "a + x * y"] show ?case
    unfolding ys by (simp add: sum.lessThan_Suc_shift del: sum.lessThan_Suc)
qed

lemma matrix_sqr_gram:
  assumes "n \<le> length s" "\<forall>r<n. n \<le> length (s ! r)" "take n m = a" "length a = n"
    and "\<forall>x \<in> set a. length x = d"
  shows "has_block n (matrix_sqr n m s)" "leading n (matrix_sqr n m s) = gram_rows d a"
proof -
  note r = matrix_sqr_rows [OF assms(1,2), of m]
  show "has_block n (matrix_sqr n m s)"
    unfolding r using assms(1) by (auto simp: has_block_def nth_append)
  have a: "a ! i = m ! i" if "i < n" for i
    using that nth_take [of i n m] assms(3) by simp
  have ip: "inner_product (a ! i) (a ! j) 0 = (\<Sum>k<d. a ! i ! k * a ! j ! k)"
    if "i < n" "j < n" for i j
    using inner_product_sum [of "a ! i" "a ! j" 0] assms(4,5) that by simp
  have "gram_rows d a = map (\<lambda>r. map (\<lambda>c. inner_product (a ! r) (a ! c) 0) [0..<n]) [0..<n]"
    unfolding gram_rows_def using assms(4) ip
    by (auto intro!: nth_equalityI)
  also have "\<dots> = map (\<lambda>r. map (\<lambda>c. inner_product (m ! r) (m ! c) 0) [0..<n]) [0..<n]"
    by (simp add: a)
  also have "\<dots> = leading n (matrix_sqr n m s)"
    unfolding r leading_def using assms(1) by (simp add: comp_def)
  finally show "leading n (matrix_sqr n m s) = gram_rows d a" ..
qed

lemma load_differences_rows:
  assumes "length ps \<le> length m" "\<forall>p \<in> set (lst # ps). d \<le> length (pt p)"
  shows "load_differences d pt ps (copy_point d pt lst) m
    = difference_rows d pt ps lst @ drop (length ps) m"
proof -
  have v: "vsub (copy_point d pt p) (copy_point d pt lst) = map (\<lambda>i. pt p ! i - pt lst ! i) [0..<d]"
    if "p \<in> set ps" for p
    using that assms(2) by (intro nth_equalityI) (simp_all add: vsub_def copy_point_def)
  have "map (\<lambda>r. vsub (copy_point d pt (ps ! r)) (copy_point d pt lst)) [0..<length ps]
      = difference_rows d pt ps lst"
    unfolding difference_rows_def by (rule nth_equalityI) (simp_all add: v)
  then show ?thesis
    unfolding load_differences_def
    using fold_rows [OF assms(1), of "\<lambda>r x. vsub (copy_point d pt (ps ! r)) (copy_point d pt lst)"]
    by simp
qed

lemma hypervolume_value:
  assumes "length (matrix h) = d" and "square d (shadow_matrix h)" and "length ps \<le> d"
    and "\<forall>p \<in> set (lst # ps). d \<le> length (pt p)"
  shows "(ps = [] \<longrightarrow> (\<forall>pt'. hypervolume d eps pt' ps lst h = (0, h)))
    \<and> (ps \<noteq> [] \<and> length ps < d \<longrightarrow>
         fst (hypervolume d eps pt ps lst h)
           = sqrt (fst (det eps (gram_rows d (difference_rows d pt ps lst)) (length ps))))
    \<and> (ps \<noteq> [] \<and> length ps = d \<longrightarrow>
         fst (hypervolume d eps pt ps lst h) = fst (det eps (difference_rows d pt ps lst) d))"
proof (intro conjI impI allI)
  fix pt' :: "'a \<Rightarrow> vector"
  assume "ps = []"
  then show "hypervolume d eps pt' ps lst h = (0, h)"
    by (simp add: hypervolume_def)
next
  assume a: "ps \<noteq> [] \<and> length ps = d"
  have "load_differences d pt ps (copy_point d pt lst) (matrix h) = difference_rows d pt ps lst"
    using load_differences_rows [of ps "matrix h" lst d pt] a assms(1,4) by simp
  with a show "fst (hypervolume d eps pt ps lst h) = fst (det eps (difference_rows d pt ps lst) d)"
    by (simp add: hypervolume_def Let_def split: prod.splits)
next
  assume a: "ps \<noteq> [] \<and> length ps < d"
  let ?r = "length ps"
  let ?s1 = "(shadow_matrix h)[length (shadow_matrix h) - 1 := copy_point d pt lst]"
  let ?m1 = "load_differences d pt ps (copy_point d pt lst) (matrix h)"
  have m1: "?m1 = difference_rows d pt ps lst @ drop ?r (matrix h)"
    using load_differences_rows [of ps "matrix h" lst d pt] a assms(1,4) by simp
  have t: "take ?r ?m1 = difference_rows d pt ps lst"
    unfolding m1 by (simp add: difference_rows_def)
  have l: "?r \<le> length ?s1"
    using a assms(2) by (simp add: square_def)
  have rows: "\<forall>i<?r. ?r \<le> length (?s1 ! i)"
    using a assms(2) by (auto simp: square_def nth_list_update)
  have ld: "length (difference_rows d pt ps lst) = ?r"
    by (simp add: difference_rows_def)
  have lr: "\<forall>x \<in> set (difference_rows d pt ps lst). length x = d"
    by (auto simp: difference_rows_def)
  note g = matrix_sqr_gram [OF l rows t ld lr]
  have "fst (det eps (matrix_sqr ?r ?m1 ?s1) ?r)
      = fst (det eps (gram_rows d (difference_rows d pt ps lst)) ?r)"
    using det_leading [OF g(1), of eps] g(2) by simp
  with a show "fst (hypervolume d eps pt ps lst h)
           = sqrt (fst (det eps (gram_rows d (difference_rows d pt ps lst)) (length ps)))"
    by (auto simp: hypervolume_def Let_def split: prod.splits)
qed

section \<open>The determinant by expansion, and the LUP determinant\<close>

lemma skip_less: "i < n \<Longrightarrow> skip r i < Suc n"
  by (simp add: skip_def)

lemma skip_neq: "skip r i \<noteq> r"
  by (simp add: skip_def)

lemma Det_cong:
  "(\<And>i j. i < n \<Longrightarrow> j < n \<Longrightarrow> A i j = B i j) \<Longrightarrow> Det n A = Det n B"
proof (induction n arbitrary: A B)
  case 0
  then show ?case by simp
next
  case (Suc n)
  have "Det n (minor A r) = Det n (minor B r)" if "r < Suc n" for r
    by (rule Suc.IH) (simp add: minor_def Suc.prems skip_less)
  then show ?case
    by (simp add: Det.simps(2) Suc.prems)
qed

lemma skip_unskip: "r \<noteq> q \<Longrightarrow> skip q (unskip q r) = r"
  by (auto simp: skip_def unskip_def)

lemma skip_eq_iff: "r \<noteq> q \<Longrightarrow> skip q i = r \<longleftrightarrow> i = unskip q r"
  by (auto simp: skip_def unskip_def)

lemma unskip_less: "r \<noteq> q \<Longrightarrow> r < Suc n \<Longrightarrow> q < Suc n \<Longrightarrow> unskip q r < n"
  by (auto simp: unskip_def)

lemma minor_upd_same: "minor (A(r := x)) r = minor A r"
  by (simp add: minor_def skip_neq fun_eq_iff)

lemma minor_upd_other:
  "r \<noteq> q \<Longrightarrow> minor (A(r := x)) q = (minor A q)(unskip q r := (\<lambda>j. x (Suc j)))"
  by (auto simp: minor_def fun_eq_iff skip_eq_iff)

lemma Det_row_linear:
  "r < n \<Longrightarrow> Det n (A(r := (\<lambda>j. a * x j + b * y j)))
     = a * Det n (A(r := x)) + b * Det n (A(r := y))"
proof (induction n arbitrary: A r x y)
  case 0
  then show ?case by simp
next
  case (Suc n)
  let ?z = "\<lambda>j. a * x j + b * y j"
  have t: "(- 1) ^ q * (A(r := ?z)) q 0 * Det n (minor (A(r := ?z)) q)
      = a * ((- 1) ^ q * (A(r := x)) q 0 * Det n (minor (A(r := x)) q))
        + b * ((- 1) ^ q * (A(r := y)) q 0 * Det n (minor (A(r := y)) q))"
    if q: "q < Suc n" for q
  proof (cases "q = r")
    case True
    then show ?thesis
      by (simp add: minor_upd_same algebra_simps)
  next
    case False
    then have rq: "r \<noteq> q" by simp
    have u: "unskip q r < n"
      using unskip_less [OF rq Suc.prems q] .
    have "Det n ((minor A q)(unskip q r := (\<lambda>j. a * x (Suc j) + b * y (Suc j))))
        = a * Det n ((minor A q)(unskip q r := (\<lambda>j. x (Suc j))))
          + b * Det n ((minor A q)(unskip q r := (\<lambda>j. y (Suc j))))"
      by (rule Suc.IH [OF u])
    then show ?thesis
      using False by (simp add: minor_upd_other [OF rq] algebra_simps)
  qed
  have "Det (Suc n) (A(r := ?z))
      = (\<Sum>q<Suc n. a * ((- 1) ^ q * (A(r := x)) q 0 * Det n (minor (A(r := x)) q))
        + b * ((- 1) ^ q * (A(r := y)) q 0 * Det n (minor (A(r := y)) q)))"
    unfolding Det.simps(2) by (rule sum.cong [OF refl]) (use t in blast)
  also have "\<dots> = a * Det (Suc n) (A(r := x)) + b * Det (Suc n) (A(r := y))"
    unfolding Det.simps(2) by (simp only: sum.distrib sum_distrib_left)
  finally show ?case .
qed

lemma minor_swap_first: "minor (A(r := A (Suc r), Suc r := A r)) r = minor A (Suc r)"
  by (auto simp: minor_def skip_def fun_eq_iff)

lemma minor_swap_second: "minor (A(r := A (Suc r), Suc r := A r)) (Suc r) = minor A r"
  by (auto simp: minor_def skip_def fun_eq_iff)

lemma minor_swap_other:
  assumes "q \<noteq> r" "q \<noteq> Suc r"
  shows "minor (A(r := A (Suc r), Suc r := A r)) q
    = (minor A q)(unskip q r := minor A q (Suc (unskip q r)),
                  Suc (unskip q r) := minor A q (unskip q r))"
  using assms by (auto simp: minor_def skip_def unskip_def fun_eq_iff)

lemma Det_swap_adjacent:
  "Suc r < n \<Longrightarrow> Det n (A(r := A (Suc r), Suc r := A r)) = - Det n A"
proof (induction n arbitrary: A r)
  case 0
  then show ?case by simp
next
  case (Suc n)
  let ?B = "A(r := A (Suc r), Suc r := A r)"
  let ?t = "\<lambda>A q. (- 1) ^ q * A q 0 * Det n (minor A q)"
  let ?S = "{..<Suc n} - {r} - {Suc r}"
  have r: "r \<in> {..<Suc n}" "Suc r \<in> {..<Suc n} - {r}"
    using Suc.prems by auto
  have split: "(\<Sum>q<Suc n. f q) = f r + (f (Suc r) + sum f ?S)" for f :: "nat \<Rightarrow> real"
    using sum.remove [of "{..<Suc n}" r f] sum.remove [of "{..<Suc n} - {r}" "Suc r" f] r
    by simp
  have a: "?t ?B r = - ?t A (Suc r)"
    by (simp add: minor_swap_first)
  have b: "?t ?B (Suc r) = - ?t A r"
    by (simp add: minor_swap_second)
  have c: "?t ?B q = - ?t A q" if "q \<in> ?S" for q
  proof -
    have q: "q \<noteq> r" "q \<noteq> Suc r" "q < Suc n" using that by auto
    have u: "Suc (unskip q r) < n"
      using q Suc.prems by (auto simp: unskip_def)
    have "Det n (minor ?B q) = - Det n (minor A q)"
      unfolding minor_swap_other [OF q(1,2)] by (rule Suc.IH [OF u])
    then show ?thesis using q by simp
  qed
  have "Det (Suc n) ?B = ?t ?B r + (?t ?B (Suc r) + sum (?t ?B) ?S)"
    unfolding Det.simps(2) by (rule split)
  also have "\<dots> = - ?t A (Suc r) + (- ?t A r + sum (\<lambda>q. - ?t A q) ?S)"
  proof -
    have "sum (?t ?B) ?S = sum (\<lambda>q. - ?t A q) ?S"
      by (rule sum.cong [OF refl]) (rule c)
    then show ?thesis
      unfolding a b by (simp only:)
  qed
  also have "\<dots> = - (?t A r + (?t A (Suc r) + sum (?t A) ?S))"
    by (simp add: sum_negf)
  also have "\<dots> = - Det (Suc n) A"
    unfolding Det.simps(2) using split [of "?t A"] by simp
  finally show ?case .
qed

lemma Det_equal_adjacent:
  assumes "Suc r < n" "\<And>j. j < n \<Longrightarrow> A r j = A (Suc r) j"
  shows "Det n A = 0"
proof -
  have "Det n (A(r := A (Suc r), Suc r := A r)) = Det n A"
    by (rule Det_cong) (simp add: assms(2))
  with Det_swap_adjacent [OF assms(1), of A] show ?thesis by simp
qed

lemma Det_equal_rows:
  assumes "r < p" "p < n" "\<And>j. j < n \<Longrightarrow> A r j = A p j"
  shows "Det n A = 0"
  using assms
proof (induction "p - r" arbitrary: p A)
  case 0
  then show ?case by simp
next
  case (Suc k)
  show ?case
  proof (cases "p = Suc r")
    case True
    with Suc.prems show ?thesis
      by (intro Det_equal_adjacent [of r]) simp_all
  next
    case False
    then obtain p' where p': "p = Suc p'" "r < p'"
      using Suc.prems(1) by (cases p) auto
    let ?B = "A(p' := A (Suc p'), Suc p' := A p')"
    have "Det n ?B = 0"
    proof (rule Suc.hyps(1) [of p'])
      show "k = p' - r" using Suc.hyps(2) p' by simp
      show "r < p'" by (rule p')
      show "p' < n" using Suc.prems(2) p' by simp
      show "\<And>j. j < n \<Longrightarrow> ?B r j = ?B p' j"
        using Suc.prems(3) p' by simp
    qed
    moreover have "Det n ?B = - Det n A"
      using Suc.prems(2) p' by (intro Det_swap_adjacent) simp
    ultimately show ?thesis by simp
  qed
qed

lemma Det_equal_rows':
  assumes "r \<noteq> p" "r < n" "p < n" "\<And>j. j < n \<Longrightarrow> A r j = A p j"
  shows "Det n A = 0"
proof (cases "r < p")
  case True
  then show ?thesis using assms by (intro Det_equal_rows [of r p]) simp_all
next
  case False
  then have "p < r" using assms(1) by simp
  then show ?thesis using assms by (intro Det_equal_rows [of p r]) simp_all
qed

lemma Det_row_add:
  assumes "r < n"
  shows "Det n (A(r := (\<lambda>j. x j + y j))) = Det n (A(r := x)) + Det n (A(r := y))"
  using Det_row_linear [OF assms, of A 1 x 1 y] by simp

lemma Det_row_op:
  assumes "r \<noteq> p" "r < n" "p < n"
  shows "Det n (A(p := (\<lambda>j. A p j - c * A r j))) = Det n A"
proof -
  have "Det n (A(p := (\<lambda>j. 1 * A p j + (- c) * A r j)))
      = 1 * Det n (A(p := A p)) + (- c) * Det n (A(p := A r))"
    by (rule Det_row_linear [OF assms(3)])
  moreover have "Det n (A(p := A r)) = 0"
    using assms by (intro Det_equal_rows' [of r p]) simp_all
  ultimately show ?thesis by simp
qed

lemma Det_swap_rows:
  assumes "r \<noteq> p" "r < n" "p < n"
  shows "Det n (A(r := A p, p := A r)) = - Det n A"
proof -
  let ?u = "A r" and ?v = "A p"
  let ?w = "\<lambda>j. ?u j + ?v j"
  let ?F = "\<lambda>x y. Det n (A(r := x, p := y))"
  have tw: "A(r := x, p := y) = A(p := y, r := x)" for x y
    using assms(1) by (rule fun_upd_twist)
  have r_add: "?F (\<lambda>j. x j + x' j) y = ?F x y + ?F x' y" for x x' y
    unfolding tw by (rule Det_row_add [OF assms(2)])
  have p_add: "?F x (\<lambda>j. y j + y' j) = ?F x y + ?F x y'" for x y y'
    by (rule Det_row_add [OF assms(3)])
  have z: "?F x x = 0" for x
    using assms by (intro Det_equal_rows' [of r p]) simp_all
  have e1: "?F ?w ?w = ?F ?u ?w + ?F ?v ?w" by (rule r_add)
  have e2: "?F ?u ?w = ?F ?u ?u + ?F ?u ?v" by (rule p_add)
  have e3: "?F ?v ?w = ?F ?v ?u + ?F ?v ?v" by (rule p_add)
  from e1 e2 e3 z [of ?w] z [of ?u] z [of ?v] have "?F ?u ?v + ?F ?v ?u = 0"
    by linarith
  moreover have "A(r := ?u, p := ?v) = A" by simp
  ultimately have "Det n A + ?F ?v ?u = 0" by (simp only:)
  then show ?thesis by linarith
qed

lemma Det_first_column:
  assumes "\<And>r. 0 < r \<Longrightarrow> r < Suc n \<Longrightarrow> A r 0 = 0"
  shows "Det (Suc n) A = A 0 0 * Det n (minor A 0)"
proof -
  have "(\<Sum>r<n. (- 1) ^ Suc r * A (Suc r) 0 * Det n (minor A (Suc r))) = 0"
    by (rule sum.neutral) (simp add: assms)
  then show ?thesis
    unfolding Det.simps(2) sum.lessThan_Suc_shift by simp
qed

lemma Det_zero_column:
  assumes "c < n" "\<And>r. r < n \<Longrightarrow> A r c = 0"
  shows "Det n A = 0"
  using assms
proof (induction n arbitrary: A c)
  case 0
  then show ?case by simp
next
  case (Suc n)
  show ?case
  proof (cases c)
    case 0
    with Suc.prems(2) show ?thesis
      unfolding Det.simps(2) by (intro sum.neutral) simp
  next
    case (Suc c')
    have "Det n (minor A r) = 0" if "r < Suc n" for r
    proof (rule Suc.IH [of c'])
      show "c' < n" using Suc.prems(1) Suc by simp
      show "\<And>i. i < n \<Longrightarrow> minor A r i c' = 0"
        using Suc.prems(2) Suc by (simp add: minor_def skip_less)
    qed
    then show ?thesis
      unfolding Det.simps(2) by (intro sum.neutral) simp
  qed
qed

lemma Det_eliminate:
  assumes "A 0 0 \<noteq> 0"
  shows "Det (Suc n) A = A 0 0 * Det n (schur A)"
proof -
  define E where "E k = (\<lambda>i. if 0 < i \<and> i \<le> k then (\<lambda>j. A i j - A i 0 / A 0 0 * A 0 j) else A i)"
    for k :: nat
  have E0: "E 0 = A" by (simp add: E_def fun_eq_iff)
  have step: "E (Suc k) = (E k)(Suc k := (\<lambda>j. E k (Suc k) j - A (Suc k) 0 / A 0 0 * E k 0 j))"
    for k
    by (auto simp: E_def fun_eq_iff)
  have "Det (Suc n) (E k) = Det (Suc n) A" if "k \<le> n" for k
    using that
  proof (induction k)
    case 0
    then show ?case by (simp add: E0)
  next
    case (Suc k)
    have "Det (Suc n) (E (Suc k)) = Det (Suc n) (E k)"
      unfolding step using Suc.prems by (intro Det_row_op) simp_all
    with Suc show ?case by simp
  qed
  from this [of n] have "Det (Suc n) A = Det (Suc n) (E n)" by simp
  also have "\<dots> = E n 0 0 * Det n (minor (E n) 0)"
    by (rule Det_first_column) (simp add: E_def assms)
  also have "E n 0 0 = A 0 0" by (simp add: E_def)
  also have "Det n (minor (E n) 0) = Det n (schur A)"
    by (rule Det_cong) (simp add: minor_def skip_def E_def schur_def)
  finally show ?thesis .
qed

lemma Det_equal_columns:
  assumes "0 < c" "c < n" "\<And>i. i < n \<Longrightarrow> A i 0 = A i c"
  shows "Det n A = 0"
proof -
  obtain n' where n: "n = Suc n'" using assms(2) by (cases n) auto
  have top: "Det (Suc n') B = 0"
    if "B 0 0 \<noteq> 0" "\<And>i. i < Suc n' \<Longrightarrow> B i 0 = B i c" for B
  proof -
    obtain c' where c: "c = Suc c'" using assms(1) by (cases c) auto
    have "Det n' (schur B) = 0"
    proof (rule Det_zero_column [of c'])
      show "c' < n'" using assms(2) n c by simp
      show "\<And>r. r < n' \<Longrightarrow> schur B r c' = 0"
        using that c by (simp add: schur_def flip: that(2))
    qed
    with Det_eliminate [of B n'] that(1) show ?thesis by simp
  qed
  show ?thesis
  proof (cases "\<forall>q<n. A q 0 = 0")
    case True
    then show ?thesis
      using assms(2) by (intro Det_zero_column [of 0]) simp_all
  next
    case False
    then obtain q where q: "q < n" "A q 0 \<noteq> 0" by auto
    show ?thesis
    proof (cases "q = 0")
      case True
      with q top [of A] assms(3) n show ?thesis by simp
    next
      case False
      let ?B = "A(0 := A q, q := A 0)"
      have "Det (Suc n') ?B = 0"
        using q False assms(3) n by (intro top) auto
      moreover have "Det n ?B = - Det n A"
        using q False by (intro Det_swap_rows) simp_all
      ultimately show ?thesis using n by simp
    qed
  qed
qed

lemma Det_shift_row:
  assumes "q < d"
  shows "Det d (\<lambda>i. (M(d := u)) (skip q i)) = (- 1) ^ (d - 1 - q) * Det d (M(q := u))"
proof -
  define U where "U t = (\<lambda>i. if i < q then M i else if i < t then M (Suc i)
       else if i = t then u else M i)" for t :: nat
  have step: "U (Suc t) = (U t)(t := U t (Suc t), Suc t := U t t)" if "q \<le> t" for t
    using that by (auto simp: U_def fun_eq_iff)
  have "Det d (U t) = (- 1) ^ (t - q) * Det d (U q)" if "q \<le> t" "t < d" for t
    using that
  proof (induction t rule: dec_induct)
    case base
    then show ?case by simp
  next
    case (step t)
    have "Det d (U (Suc t)) = - Det d (U t)"
      unfolding \<open>q \<le> t\<close> [THEN \<open>\<And>t. q \<le> t \<Longrightarrow> U (Suc t) = (U t)(t := U t (Suc t), Suc t := U t t)\<close>]
      using step.prems by (intro Det_swap_adjacent) simp
    with step show ?case by (simp add: Suc_diff_le)
  qed
  from this [of "d - 1"] have "Det d (U (d - 1)) = (- 1) ^ (d - 1 - q) * Det d (U q)"
    using assms by simp
  moreover have "U q = M(q := u)"
    by (auto simp: U_def fun_eq_iff)
  moreover have "Det d (\<lambda>i. (M(d := u)) (skip q i)) = Det d (U (d - 1))"
    by (rule Det_cong) (use assms in \<open>auto simp: U_def skip_def\<close>)
  ultimately show ?thesis by simp
qed

lemma Det_cramer:
  assumes "k < d"
  shows "(\<Sum>i<d. M i k * Det d (M(i := u))) = u k * Det d M"
proof -
  let ?E = "M(d := u)"
  define W where "W = (\<lambda>i j. case j of 0 \<Rightarrow> ?E i k | Suc j' \<Rightarrow> ?E i j')"
  have "Det (Suc d) W = 0"
    by (rule Det_equal_columns [of "Suc k"]) (use assms in \<open>simp_all add: W_def\<close>)
  moreover have m: "minor W q = (\<lambda>i. ?E (skip q i))" for q
    by (simp add: minor_def W_def fun_eq_iff)
  have "Det (Suc d) W
      = (\<Sum>q<d. (- 1) ^ q * W q 0 * Det d (minor W q)) + (- 1) ^ d * W d 0 * Det d (minor W d)"
    unfolding Det.simps(2) by simp
  moreover have "(- 1) ^ q * W q 0 * Det d (minor W q)
      = (- 1) ^ (d - 1) * (M q k * Det d (M(q := u)))" if "q < d" for q
  proof -
    have "(- 1) ^ q * (- 1) ^ (d - 1 - q) = (- 1 :: real) ^ (d - 1)"
      using that by (simp flip: power_add)
    then have "(- 1) ^ q * ((- 1) ^ (d - 1 - q) * x) = (- 1 :: real) ^ (d - 1) * x" for x
      by (simp flip: mult.assoc)
    moreover have "W q 0 = M q k" using that by (simp add: W_def)
    ultimately show ?thesis
      unfolding m Det_shift_row [OF that] by (simp add: mult.assoc mult.left_commute)
  qed
  moreover have "W d 0 = u k" by (simp add: W_def)
  moreover have "Det d (minor W d) = Det d M"
    unfolding m by (rule Det_cong) (simp add: skip_def)
  ultimately have "(\<Sum>q<d. (- 1) ^ (d - 1) * (M q k * Det d (M(q := u))))
      + (- 1) ^ d * u k * Det d M = 0"
    by simp
  then have "(- 1) ^ (d - 1) * ((\<Sum>q<d. M q k * Det d (M(q := u))) - u k * Det d M) = 0"
    using assms by (cases d) (simp_all add: sum_distrib_left algebra_simps)
  then show ?thesis by simp
qed

lemma scale_column_entry:
  assumes "has_block n m" "i < n" "r < n" "c < n"
  shows "scale_column n i m ! r ! c
    = (if i < r \<and> c = i then m ! r ! i / m ! i ! i else m ! r ! c)"
proof -
  let ?g = "\<lambda>j m. set_entry m j i (m ! j ! i / m ! i ! i)"
  have "has_block n (fold ?g [Suc i..<k] m)
      \<and> (\<forall>r<n. \<forall>c<n. fold ?g [Suc i..<k] m ! r ! c
            = (if i < r \<and> r < k \<and> c = i then m ! r ! i / m ! i ! i else m ! r ! c))"
    if "Suc i \<le> k" "k \<le> n" for k
    using that
  proof (induction k rule: dec_induct)
    case base
    then show ?case using assms(1) by simp
  next
    case (step k)
    let ?M = "fold ?g [Suc i..<k] m"
    have ih: "has_block n ?M"
      "\<And>r c. r < n \<Longrightarrow> c < n \<Longrightarrow> ?M ! r ! c
            = (if i < r \<and> r < k \<and> c = i then m ! r ! i / m ! i ! i else m ! r ! c)"
      using step by simp_all
    have k: "k < n" "i < k" using step by simp_all
    have len: "k < length ?M" "i < length (?M ! k)"
      using ih(1) k assms(2) by (auto simp: has_block_def)
    have f: "fold ?g [Suc i..<Suc k] m = ?g k ?M"
      using step.hyps by simp
    have e: "?g k ?M ! r ! c = (if r = k \<and> c = i then ?M ! k ! i / ?M ! i ! i else ?M ! r ! c)"
      if "r < n" "c < n" for r c
      using that len ih(1) by (auto simp: set_entry_def has_block_def nth_list_update)
    show ?case
      unfolding f using ih k assms(2) e
      by (auto simp: has_block_set_entry less_Suc_eq)
  qed
  from this [of n] assms show ?thesis
    by (simp add: scale_column_def)
qed

lemma eliminate_row_entry:
  assumes "has_block n m" "i < j" "j < n"
  shows "has_block n (fold (\<lambda>k m. set_entry m j k (m ! j ! k - m ! j ! i * m ! i ! k))
                        [Suc i..<n] m)"
    and "r < n \<Longrightarrow> c < n \<Longrightarrow>
      fold (\<lambda>k m. set_entry m j k (m ! j ! k - m ! j ! i * m ! i ! k)) [Suc i..<n] m ! r ! c
       = (if r = j \<and> i < c then m ! r ! c - m ! r ! i * m ! i ! c else m ! r ! c)"
proof -
  let ?g = "\<lambda>k m. set_entry m j k (m ! j ! k - m ! j ! i * m ! i ! k)"
  have i: "i < n" using assms by simp
  have *: "has_block n (fold ?g [Suc i..<k] m)
      \<and> (\<forall>r<n. \<forall>c<n. fold ?g [Suc i..<k] m ! r ! c
            = (if r = j \<and> i < c \<and> c < k then m ! r ! c - m ! r ! i * m ! i ! c
               else m ! r ! c))"
    if "Suc i \<le> k" "k \<le> n" for k
    using that
  proof (induction k rule: dec_induct)
    case base
    then show ?case using assms(1) by simp
  next
    case (step k)
    let ?M = "fold ?g [Suc i..<k] m"
    have ih: "has_block n ?M"
      "\<And>r c. r < n \<Longrightarrow> c < n \<Longrightarrow> ?M ! r ! c
            = (if r = j \<and> i < c \<and> c < k then m ! r ! c - m ! r ! i * m ! i ! c
               else m ! r ! c)"
      using step by simp_all
    have k: "k < n" "i < k" using step by simp_all
    have len: "j < length ?M" "k < length (?M ! j)"
      using ih(1) k assms(3) by (auto simp: has_block_def)
    have f: "fold ?g [Suc i..<Suc k] m = ?g k ?M"
      using step.hyps by simp
    have e: "?g k ?M ! r ! c
        = (if r = j \<and> c = k then ?M ! j ! k - ?M ! j ! i * ?M ! i ! k else ?M ! r ! c)"
      if "r < n" "c < n" for r c
      using that len ih(1) by (auto simp: set_entry_def has_block_def nth_list_update)
    show ?case
      unfolding f using ih k i assms(2,3) e
      by (auto simp: has_block_set_entry less_Suc_eq)
  qed
  from * [of n] i show "has_block n (fold ?g [Suc i..<n] m)" by simp
  from * [of n] i show "r < n \<Longrightarrow> c < n \<Longrightarrow> fold ?g [Suc i..<n] m ! r ! c
       = (if r = j \<and> i < c then m ! r ! c - m ! r ! i * m ! i ! c else m ! r ! c)"
    by simp
qed

lemma eliminate_entry:
  assumes "has_block n m" "i < n" "r < n" "c < n"
  shows "eliminate n i m ! r ! c
    = (if i < r \<and> i < c then m ! r ! c - m ! r ! i * m ! i ! c else m ! r ! c)"
proof -
  let ?h = "\<lambda>j m. fold (\<lambda>k m. set_entry m j k (m ! j ! k - m ! j ! i * m ! i ! k)) [Suc i..<n] m"
  have "has_block n (fold ?h [Suc i..<k] m)
      \<and> (\<forall>r<n. \<forall>c<n. fold ?h [Suc i..<k] m ! r ! c
            = (if i < r \<and> r < k \<and> i < c then m ! r ! c - m ! r ! i * m ! i ! c
               else m ! r ! c))"
    if "Suc i \<le> k" "k \<le> n" for k
    using that
  proof (induction k rule: dec_induct)
    case base
    then show ?case using assms(1) by simp
  next
    case (step k)
    let ?M = "fold ?h [Suc i..<k] m"
    have ih: "has_block n ?M"
      "\<And>r c. r < n \<Longrightarrow> c < n \<Longrightarrow> ?M ! r ! c
            = (if i < r \<and> r < k \<and> i < c then m ! r ! c - m ! r ! i * m ! i ! c
               else m ! r ! c)"
      using step by simp_all
    have k: "k < n" "i < k" using step by simp_all
    note row = eliminate_row_entry [OF ih(1) k(2) k(1)]
    have f: "fold ?h [Suc i..<Suc k] m = ?h k ?M"
      using step.hyps by simp
    show ?case
      unfolding f using row ih k assms(2)
      by (auto simp: less_Suc_eq)
  qed
  from this [of n] assms show ?thesis
    by (simp add: eliminate_def)
qed

lemma eliminate_scale_entry:
  assumes "has_block n m" "i < r" "r < n" "i < c" "c < n"
  shows "eliminate n i (scale_column n i m) ! r ! c
    = m ! r ! c - m ! r ! i / m ! i ! i * m ! i ! c"
proof -
  have i: "i < n" using assms by simp
  note b = scale_column_leading(1) [OF assms(1) i]
  show ?thesis
    using eliminate_entry [OF b i assms(3,5)] assms
      scale_column_entry [OF assms(1) i assms(3,5)]
      scale_column_entry [OF assms(1) i assms(3) i]
      scale_column_entry [OF assms(1) i i assms(5)]
    by simp
qed

lemma blk_swap_rows:
  assumes "has_block n m" "i < p" "p < n"
  shows "blk i (swap_rows m i p) = (blk i m)(0 := blk i m (p - i), p - i := blk i m 0)"
proof -
  have l: "i < length m" "p < length m"
    using assms by (auto simp: has_block_def)
  have "swap_rows m i p ! (i + r) = ((\<lambda>r. m ! (i + r))(0 := m ! p, p - i := m ! i)) r" for r
    using l assms(2) by (auto simp: swap_rows_def nth_list_update)
  then show ?thesis
    using assms(2) by (auto simp: blk_def fun_eq_iff)
qed

lemma det_loop_Det:
  assumes "has_block n m" "0 \<le> eps" "i \<le> n"
    and "eps = 0 \<or> (\<forall>s \<in> set (lup_steps eps n i m). eps < step_max s)"
  shows "fst (det_loop eps n i dt m) = dt * Det (n - i) (blk i m)"
  using assms
proof (induction "n - i" arbitrary: i dt m)
  case 0
  then have "i = n" by simp
  then show ?case
    by (simp add: det_loop.simps [of eps n n])
next
  case (Suc k)
  then have i: "i < n" by simp
  have k: "k = n - Suc i" "n - i = Suc k" using Suc.hyps(2) by simp_all
  let ?p = "pivot_row m i n"
  note p = pivot_row_spec [OF i, of m]
  let ?m1 = "if ?p \<noteq> i then swap_rows m i ?p else m"
  let ?m3 = "eliminate n i (scale_column n i ?m1)"
  have l: "lup_steps eps n i m
      = \<lparr>step_max = column_max m i n, step_swapped = (?p \<noteq> i), step_pivot = ?m1 ! i ! i\<rparr>
        # (if \<not> eps < column_max m i n then [] else lup_steps eps n (Suc i) ?m3)"
    using i by (simp add: lup_steps.simps [of eps n i m] Let_def)
  show ?case
  proof (cases "eps < column_max m i n")
    case False
    then have e0: "eps = 0"
      using Suc.prems(4) unfolding l by auto
    have "blk i m r 0 = 0" if "r < Suc k" for r
    proof -
      have "\<bar>m ! (i + r) ! i\<bar> \<le> column_max m i n"
        using p(4) that k by simp
      with False e0 show ?thesis by (simp add: blk_def)
    qed
    then have "Det (Suc k) (blk i m) = 0"
      by (intro Det_zero_column [of 0]) simp_all
    moreover have "fst (det_loop eps n i dt m) = 0"
      using i False by (simp add: det_loop.simps [of eps n i dt m] find_pivot_spec)
    ultimately show ?thesis
      unfolding k(2) by simp
  next
    case reg: True
    then have rest: "eps = 0 \<or> (\<forall>s \<in> set (lup_steps eps n (Suc i) ?m3). eps < step_max s)"
      using Suc.prems(4) unfolding l by auto
    have b1: "has_block n ?m1"
      using swap_rows_leading(1) [OF Suc.prems(1) i p(2)] Suc.prems(1) by simp
    have b3: "has_block n ?m3"
      using eliminate_leading(1) [OF scale_column_leading(1) [OF b1 i] i] .
    have len: "i < length m" "?p < length m"
      using Suc.prems(1) i p(2) by (auto simp: has_block_def)
    have row: "?m1 ! i = m ! ?p"
      using len by (simp add: swap_rows_def)
    have dia: "?m1 ! i ! i \<noteq> 0"
      using p(3) reg Suc.prems(2) unfolding row by auto
    have sw: "Det (Suc k) (blk i ?m1) = (if ?p \<noteq> i then - 1 else 1) * Det (Suc k) (blk i m)"
    proof (cases "?p = i")
      case True
      then show ?thesis by simp
    next
      case False
      then have ip: "i < ?p" using p(1) by simp
      have "Det (Suc k) ((blk i m)(0 := blk i m (?p - i), ?p - i := blk i m 0))
          = - Det (Suc k) (blk i m)"
        using ip p(2) k by (intro Det_swap_rows) simp_all
      with False show ?thesis
        by (simp add: blk_swap_rows [OF Suc.prems(1) ip p(2)])
    qed
    have "Det (Suc k) (blk i ?m1) = blk i ?m1 0 0 * Det k (schur (blk i ?m1))"
      by (rule Det_eliminate) (use dia in \<open>simp add: blk_def\<close>)
    also have "Det k (schur (blk i ?m1)) = Det k (blk (Suc i) ?m3)"
    proof (rule Det_cong)
      fix r c assume "r < k" "c < k"
      then have rc: "i < Suc (i + r)" "Suc (i + r) < n" "i < Suc (i + c)" "Suc (i + c) < n"
        using k by simp_all
      show "schur (blk i ?m1) r c = blk (Suc i) ?m3 r c"
        using eliminate_scale_entry [OF b1 rc] by (simp add: schur_def blk_def)
    qed
    finally have el: "Det (Suc k) (blk i ?m1) = ?m1 ! i ! i * Det k (blk (Suc i) ?m3)"
      by (simp add: blk_def)
    define dt' where "dt' = (if ?p \<noteq> i then - dt else dt) * (?m1 ! i ! i)"
    define m3 where "m3 = ?m3"
    have d: "det_loop eps n i dt m = det_loop eps n (Suc i) dt' m3"
      using i reg
      by (simp add: det_loop.simps [of eps n i dt m] find_pivot_spec Let_def dt'_def m3_def)
    have "fst (det_loop eps n (Suc i) dt' ?m3) = dt' * Det (n - Suc i) (blk (Suc i) ?m3)"
      by (rule Suc.hyps(1) [OF k(1) b3 Suc.prems(2) _ rest]) (use i in simp)
    then have ih: "fst (det_loop eps n (Suc i) dt' m3) = dt' * Det k (blk (Suc i) m3)"
      unfolding m3_def [symmetric] k(1) [symmetric] .
    have "dt' * Det k (blk (Suc i) m3)
        = (if ?p \<noteq> i then - dt else dt) * (?m1 ! i ! i * Det k (blk (Suc i) ?m3))"
      by (simp only: dt'_def m3_def mult.assoc)
    also have "\<dots> = (if ?p \<noteq> i then - dt else dt) * Det (Suc k) (blk i ?m1)"
      by (simp only: el)
    also have "\<dots> = dt * Det (Suc k) (blk i m)"
      unfolding sw by simp
    finally have e: "dt' * Det k (blk (Suc i) m3) = dt * Det (Suc k) (blk i m)" .
    show ?thesis
      unfolding d k(2) using ih e by simp
  qed
qed

lemma det_Det:
  assumes "has_block n m" "0 \<le> eps" "eps = 0 \<or> regular eps n m"
  shows "fst (det eps m n) = Det n (\<lambda>r c. m ! r ! c)"
  using det_loop_Det [OF assms(1,2), of 0 1] assms(3)
  by (simp add: det_def regular_def list_all_iff blk_def)

lemma det_loop_has_block:
  assumes "has_block n m"
  shows "has_block n (snd (det_loop eps n i dt m))"
  using assms
proof (induction "n - i" arbitrary: i dt m)
  case 0
  then have "\<not> i < n" by simp
  then show ?case
    using 0 by (simp add: det_loop.simps [of eps n i])
next
  case (Suc k)
  then have i: "i < n" by simp
  have k: "k = n - Suc i" using Suc.hyps(2) by simp
  let ?p = "pivot_row m i n"
  note p = pivot_row_spec [OF i, of m]
  let ?m1 = "if ?p \<noteq> i then swap_rows m i ?p else m"
  let ?m3 = "eliminate n i (scale_column n i ?m1)"
  have b1: "has_block n ?m1"
    using swap_rows_leading(1) [OF Suc.prems(1) i p(2)] Suc.prems(1) by simp
  have b3: "has_block n ?m3"
    using eliminate_leading(1) [OF scale_column_leading(1) [OF b1 i] i] .
  show ?case
  proof (cases "eps < column_max m i n")
    case False
    then show ?thesis
      using i Suc.prems
      by (simp add: det_loop.simps [of eps n i dt m] find_pivot_spec)
  next
    case True
    have "det_loop eps n i dt m
        = det_loop eps n (Suc i) ((if ?p \<noteq> i then - dt else dt) * (?m1 ! i ! i)) ?m3"
      using i True by (simp add: det_loop.simps [of eps n i dt m] find_pivot_spec Let_def)
    then show ?thesis
      using Suc.hyps(1) [OF k b3] by simp
  qed
qed

lemma det_has_block: "has_block n m \<Longrightarrow> has_block n (snd (det eps m n))"
  by (simp add: det_def det_loop_has_block)

lemma load_vertices_rows:
  assumes "length s = d" "length vs = d"
  shows "load_vertices d pt vs s = map (copy_point d pt) vs"
proof -
  have "map (\<lambda>r. copy_point d pt (vs ! r)) [0..<d] = map (copy_point d pt) vs"
    using assms(2) by (intro nth_equalityI) simp_all
  then show ?thesis
    unfolding load_vertices_def
    using fold_rows [of d s "\<lambda>r x. copy_point d pt (vs ! r)"] assms(1) by simp
qed

lemma swap_entries_entry:
  assumes "has_block n s" "r < n" "c < n" "i < n" "j < n"
  shows "swap_entries s r c ! i ! j
    = (if i = r \<and> j = c then s ! c ! r else if i = c \<and> j = r then s ! r ! c else s ! i ! j)"
    and "has_block n (swap_entries s r c)"
proof -
  have l: "r < length s" "c < length s" "c < length (s ! r)" "r < length (s ! c)"
    using assms(1-3) by (auto simp: has_block_def)
  show "swap_entries s r c ! i ! j
    = (if i = r \<and> j = c then s ! c ! r else if i = c \<and> j = r then s ! r ! c else s ! i ! j)"
    using l by (auto simp: swap_entries_def set_entry_def nth_list_update)
  show "has_block n (swap_entries s r c)"
    using assms(1) by (simp add: swap_entries_def has_block_set_entry)
qed

lemma transpose_row_entry:
  assumes "has_block n s" "r < n"
  shows "has_block n (fold (\<lambda>c s. swap_entries s r c) [Suc r..<n] s)"
    and "i < n \<Longrightarrow> j < n \<Longrightarrow>
      fold (\<lambda>c s. swap_entries s r c) [Suc r..<n] s ! i ! j
       = (if (i = r \<and> r < j) \<or> (j = r \<and> r < i) then s ! j ! i else s ! i ! j)"
proof -
  let ?g = "\<lambda>c s. swap_entries s r c"
  have *: "has_block n (fold ?g [Suc r..<k] s)
      \<and> (\<forall>i<n. \<forall>j<n. fold ?g [Suc r..<k] s ! i ! j
            = (if (i = r \<and> r < j \<and> j < k) \<or> (j = r \<and> r < i \<and> i < k) then s ! j ! i
               else s ! i ! j))"
    if "Suc r \<le> k" "k \<le> n" for k
    using that
  proof (induction k rule: dec_induct)
    case base
    then show ?case using assms(1) by simp
  next
    case (step k)
    let ?M = "fold ?g [Suc r..<k] s"
    have ih: "has_block n ?M"
      "\<And>i j. i < n \<Longrightarrow> j < n \<Longrightarrow> ?M ! i ! j
            = (if (i = r \<and> r < j \<and> j < k) \<or> (j = r \<and> r < i \<and> i < k) then s ! j ! i
               else s ! i ! j)"
      using step by simp_all
    have k: "k < n" "r < k" using step by simp_all
    note e = swap_entries_entry [OF ih(1) assms(2) k(1)]
    have f: "fold ?g [Suc r..<Suc k] s = ?g k ?M"
      using step.hyps by simp
    show ?case
      unfolding f using e ih k assms(2)
      by (auto simp: less_Suc_eq)
  qed
  from * [of n] assms(2) show "has_block n (fold ?g [Suc r..<n] s)" by simp
  from * [of n] assms(2) show "i < n \<Longrightarrow> j < n \<Longrightarrow> fold ?g [Suc r..<n] s ! i ! j
       = (if (i = r \<and> r < j) \<or> (j = r \<and> r < i) then s ! j ! i else s ! i ! j)"
    by simp
qed

lemma matrix_transpose_entry:
  assumes "has_block d s"
  shows "has_block d (matrix_transpose d s)"
    and "i < d \<Longrightarrow> j < d \<Longrightarrow> matrix_transpose d s ! i ! j = s ! j ! i"
proof -
  let ?h = "\<lambda>r s. fold (\<lambda>c s. swap_entries s r c) [Suc r..<d] s"
  have *: "has_block d (fold ?h [0..<k] s)
      \<and> (\<forall>i<d. \<forall>j<d. fold ?h [0..<k] s ! i ! j
            = (if i < k \<or> j < k then s ! j ! i else s ! i ! j))"
    if "k \<le> d" for k
    using that
  proof (induction k)
    case 0
    then show ?case using assms by simp
  next
    case (Suc k)
    let ?M = "fold ?h [0..<k] s"
    have ih: "has_block d ?M"
      "\<And>i j. i < d \<Longrightarrow> j < d \<Longrightarrow> ?M ! i ! j
            = (if i < k \<or> j < k then s ! j ! i else s ! i ! j)"
      using Suc by simp_all
    have k: "k < d" using Suc.prems by simp
    note row = transpose_row_entry [OF ih(1) k]
    have f: "fold ?h [0..<Suc k] s = ?h k ?M"
      by simp
    show ?case
      unfolding f using row ih k
      by (auto simp: less_Suc_eq)
  qed
  from * [of d] show "has_block d (matrix_transpose d s)"
    by (simp add: matrix_transpose_def)
  from * [of d] show "i < d \<Longrightarrow> j < d \<Longrightarrow> matrix_transpose d s ! i ! j = s ! j ! i"
    by (simp add: matrix_transpose_def)
qed

lemma matrix_restore_leading:
  assumes "has_block d m" "has_block d s" "i < d"
  shows "has_block d (matrix_restore d i m s)"
    and "leading d (matrix_restore d i m s) = (leading d s)[i := replicate d 1]"
proof -
  let ?F = "\<lambda>c row. if c = i then replicate (length row) (1::real) else s ! c"
  have d: "d \<le> length m" "d \<le> length s"
    using assms by (simp_all add: has_block_def)
  have r: "matrix_restore d i m s = map (\<lambda>c. ?F c (m ! c)) [0..<d] @ drop d m"
    unfolding matrix_restore_def using fold_rows [OF d(1), of ?F] by simp
  show "has_block d (matrix_restore d i m s)"
    unfolding r using assms by (auto simp: has_block_def nth_append)
  have "map (take d) (map (\<lambda>c. ?F c (m ! c)) [0..<d]) = (map (take d) (take d s))[i := replicate d 1]"
  proof (rule nth_equalityI)
    show "length (map (take d) (map (\<lambda>c. ?F c (m ! c)) [0..<d]))
        = length ((map (take d) (take d s))[i := replicate d 1])"
      using d by simp
  next
    fix c assume "c < length (map (take d) (map (\<lambda>c. ?F c (m ! c)) [0..<d]))"
    then have c: "c < d" by simp
    have "d \<le> length (m ! i)" using assms(1,3) by (simp add: has_block_def)
    then have "take d (replicate (length (m ! i)) (1::real)) = replicate d 1"
      by (simp add: min_def)
    then show "map (take d) (map (\<lambda>c. ?F c (m ! c)) [0..<d]) ! c
        = (map (take d) (take d s))[i := replicate d 1] ! c"
      using c d by (simp add: nth_list_update)
  qed
  then show "leading d (matrix_restore d i m s) = (leading d s)[i := replicate d 1]"
    unfolding r leading_def by simp
qed

section \<open>Singular matrices and affine dependence\<close>

lemma Det_dependent_columns:
  assumes "\<exists>j<n. c j \<noteq> 0" "\<And>i. i < n \<Longrightarrow> (\<Sum>j<n. c j * A i j) = 0"
  shows "Det n A = 0"
  using assms
proof (induction n arbitrary: A c)
  case 0
  then show ?case by simp
next
  case (Suc n)
  have top: "Det (Suc n) B = 0"
    if b: "B 0 0 \<noteq> 0" and dep: "\<And>i. i < Suc n \<Longrightarrow> (\<Sum>j<Suc n. c j * B i j) = 0" for B
  proof -
    have row: "c 0 * B i 0 + (\<Sum>j<n. c (Suc j) * B i (Suc j)) = 0" if "i < Suc n" for i
      using dep [OF that] by (simp add: sum.lessThan_Suc_shift del: sum.lessThan_Suc)
    have ex: "\<exists>j<n. c (Suc j) \<noteq> 0"
    proof (rule ccontr)
      assume "\<not> ?thesis"
      then have z: "\<And>j. j < n \<Longrightarrow> c (Suc j) = 0" by auto
      then have "c 0 * B 0 0 = 0" using row [of 0] by simp
      then have "c 0 = 0" using b by simp
      moreover from Suc.prems(1) obtain j where j: "j < Suc n" "c j \<noteq> 0" by auto
      ultimately show False using z [of "j - 1"] by (cases j) auto
    qed
    have "Det n (schur B) = 0"
    proof (rule Suc.IH [of "\<lambda>j. c (Suc j)"])
      show "\<exists>j<n. c (Suc j) \<noteq> 0" by (rule ex)
    next
      fix i assume i: "i < n"
      have "(\<Sum>j<n. c (Suc j) * schur B i j)
          = (\<Sum>j<n. c (Suc j) * B (Suc i) (Suc j)
               - B (Suc i) 0 / B 0 0 * (c (Suc j) * B 0 (Suc j)))"
        by (rule sum.cong) (simp_all add: schur_def right_diff_distrib)
      also have "\<dots> = (\<Sum>j<n. c (Suc j) * B (Suc i) (Suc j))
            - B (Suc i) 0 / B 0 0 * (\<Sum>j<n. c (Suc j) * B 0 (Suc j))"
        by (simp only: sum_subtractf sum_distrib_left)
      also have "(\<Sum>j<n. c (Suc j) * B (Suc i) (Suc j)) = - (c 0 * B (Suc i) 0)"
        using row [of "Suc i"] i by simp
      also have "(\<Sum>j<n. c (Suc j) * B 0 (Suc j)) = - (c 0 * B 0 0)"
        using row [of 0] by simp
      also have "- (c 0 * B (Suc i) 0) - B (Suc i) 0 / B 0 0 * - (c 0 * B 0 0) = 0"
        using b by simp
      finally show "(\<Sum>j<n. c (Suc j) * schur B i j) = 0" .
    qed
    with Det_eliminate [of B n] b show ?thesis by simp
  qed
  show ?case
  proof (cases "\<forall>q<Suc n. A q 0 = 0")
    case True
    then show ?thesis by (intro Det_zero_column [of 0]) simp_all
  next
    case False
    then obtain q where q: "q < Suc n" "A q 0 \<noteq> 0" by auto
    show ?thesis
    proof (cases "q = 0")
      case True
      with q top [of A] Suc.prems(2) show ?thesis by simp
    next
      case False
      let ?B = "A(0 := A q, q := A 0)"
      have "Det (Suc n) ?B = 0"
      proof (rule top)
        show "?B 0 0 \<noteq> 0" using q False by simp
      next
        fix i assume "i < Suc n"
        then show "(\<Sum>j<Suc n. c j * ?B i j) = 0"
          using Suc.prems(2) [of i] Suc.prems(2) [of q] Suc.prems(2) [of 0] q(1)
          by (cases "i = 0"; cases "i = q") (simp_all del: sum.lessThan_Suc)
      qed
      moreover have "Det (Suc n) ?B = - Det (Suc n) A"
        using q False by (intro Det_swap_rows) simp_all
      ultimately show ?thesis by simp
    qed
  qed
qed

lemma Det_zero_dependent:
  assumes "Det n A = 0"
  shows "\<exists>c. (\<exists>j<n. c j \<noteq> 0) \<and> (\<forall>i<n. (\<Sum>j<n. c j * A i j) = 0)"
  using assms
proof (induction n arbitrary: A)
  case 0
  then show ?case by simp
next
  case (Suc n)
  have top: "\<exists>c. (\<exists>j<Suc n. c j \<noteq> 0) \<and> (\<forall>i<Suc n. (\<Sum>j<Suc n. c j * B i j) = 0)"
    if b: "B 0 0 \<noteq> 0" and z: "Det (Suc n) B = 0" for B
  proof -
    have "Det n (schur B) = 0"
      using Det_eliminate [of B n] b z by simp
    from Suc.IH [OF this] obtain c' where c': "\<exists>j<n. c' j \<noteq> 0"
      "\<And>i. i < n \<Longrightarrow> (\<Sum>j<n. c' j * schur B i j) = 0"
      by blast
    define s where "s = (\<Sum>j<n. c' j * B 0 (Suc j))"
    define c where "c = (\<lambda>j. case j of 0 \<Rightarrow> - s / B 0 0 | Suc j' \<Rightarrow> c' j')"
    have ex: "\<exists>j<Suc n. c j \<noteq> 0"
    proof -
      from c'(1) obtain j where "j < n" "c' j \<noteq> 0" by auto
      then have "Suc j < Suc n" "c (Suc j) \<noteq> 0" by (simp_all add: c_def)
      then show ?thesis by blast
    qed
    have "(\<Sum>j<Suc n. c j * B i j) = 0" if i: "i < Suc n" for i
    proof (cases i)
      case 0
      have "(\<Sum>j<Suc n. c j * B 0 j) = - s / B 0 0 * B 0 0 + s"
        by (simp add: sum.lessThan_Suc_shift c_def s_def del: sum.lessThan_Suc)
      also have "\<dots> = 0" using b by simp
      finally show ?thesis using 0 by simp
    next
      case (Suc i')
      then have i': "i' < n" using i by simp
      have "(\<Sum>j<n. c' j * B (Suc i') (Suc j))
          = (\<Sum>j<n. c' j * schur B i' j + B (Suc i') 0 / B 0 0 * (c' j * B 0 (Suc j)))"
        by (rule sum.cong) (simp_all add: schur_def right_diff_distrib)
      also have "\<dots> = (\<Sum>j<n. c' j * schur B i' j) + B (Suc i') 0 / B 0 0 * s"
        by (simp only: sum.distrib sum_distrib_left s_def)
      also have "\<dots> = B (Suc i') 0 / B 0 0 * s"
        using c'(2) [OF i'] by simp
      finally have r: "(\<Sum>j<n. c' j * B (Suc i') (Suc j)) = B (Suc i') 0 / B 0 0 * s" .
      have "(\<Sum>j<Suc n. c j * B (Suc i') j) = - s / B 0 0 * B (Suc i') 0 + B (Suc i') 0 / B 0 0 * s"
        using r by (simp add: sum.lessThan_Suc_shift c_def del: sum.lessThan_Suc)
      also have "\<dots> = 0" by simp
      finally show ?thesis using Suc by simp
    qed
    with ex show ?thesis by blast
  qed
  show ?case
  proof (cases "\<forall>q<Suc n. A q 0 = 0")
    case True
    let ?c = "\<lambda>j::nat. if j = 0 then 1 else (0::real)"
    have z: "(\<Sum>j<Suc n. ?c j * A i j) = 0" if "i < Suc n" for i
    proof -
      have "(\<Sum>j<Suc n. ?c j * A i j) = ?c 0 * A i 0 + (\<Sum>j<n. ?c (Suc j) * A i (Suc j))"
        by (rule sum.lessThan_Suc_shift)
      also have "\<dots> = A i 0" by simp
      also have "\<dots> = 0" using True that by blast
      finally show ?thesis .
    qed
    show ?thesis
    proof (intro exI [of _ ?c] conjI allI impI)
      show "\<exists>j<Suc n. ?c j \<noteq> 0" by (intro exI [of _ 0]) simp
    next
      fix i assume "i < Suc n"
      then show "(\<Sum>j<Suc n. ?c j * A i j) = 0" by (rule z)
    qed
  next
    case False
    then obtain q where q: "q < Suc n" "A q 0 \<noteq> 0" by auto
    show ?thesis
    proof (cases "q = 0")
      case True
      with q top [of A] Suc.prems show ?thesis by simp
    next
      case False
      let ?B = "A(0 := A q, q := A 0)"
      have "Det (Suc n) ?B = - Det (Suc n) A"
        using q False by (intro Det_swap_rows) simp_all
      then have "Det (Suc n) ?B = 0" using Suc.prems by simp
      moreover have "?B 0 0 \<noteq> 0" using q False by simp
      ultimately obtain c where c: "\<exists>j<Suc n. c j \<noteq> 0"
        "\<And>i. i < Suc n \<Longrightarrow> (\<Sum>j<Suc n. c j * ?B i j) = 0"
        using top [of ?B] by blast
      have "(\<Sum>j<Suc n. c j * A i j) = 0" if "i < Suc n" for i
        using c(2) [of i] c(2) [of q] c(2) [of 0] q(1) that False
        by (cases "i = 0"; cases "i = q") (simp_all del: sum.lessThan_Suc)
      with c(1) show ?thesis by blast
    qed
  qed
qed


lemma affinely_independent_Det:
  assumes "length xs = Suc d"
  shows "affinely_independent d xs \<longleftrightarrow> Det (Suc d) (homogeneous d xs) \<noteq> 0"
proof -
  have dep: "(\<forall>i<Suc d. (\<Sum>j<Suc d. c j * homogeneous d xs i j) = 0)
      \<longleftrightarrow> (\<Sum>j<Suc d. c j) = 0 \<and> (\<forall>i<d. (\<Sum>j<Suc d. c j * xs ! j ! i) = 0)" for c
    by (auto simp: homogeneous_def less_Suc_eq simp del: sum.lessThan_Suc)
  show ?thesis
  proof
    assume a: "affinely_independent d xs"
    show "Det (Suc d) (homogeneous d xs) \<noteq> 0"
    proof
      assume "Det (Suc d) (homogeneous d xs) = 0"
      from Det_zero_dependent [OF this] obtain c where
        "\<exists>j<Suc d. c j \<noteq> 0" "\<forall>i<Suc d. (\<Sum>j<Suc d. c j * homogeneous d xs i j) = 0"
        by blast
      with a dep [of c] show False
        unfolding affinely_independent_def assms by blast
    qed
  next
    assume n: "Det (Suc d) (homogeneous d xs) \<noteq> 0"
    show "affinely_independent d xs"
      unfolding affinely_independent_def assms
    proof
      assume "\<exists>c. (\<exists>j<Suc d. c j \<noteq> 0) \<and> (\<Sum>j<Suc d. c j) = 0
          \<and> (\<forall>i<d. (\<Sum>j<Suc d. c j * xs ! j ! i) = 0)"
      then obtain c where c: "\<exists>j<Suc d. c j \<noteq> 0"
        "\<forall>i<Suc d. (\<Sum>j<Suc d. c j * homogeneous d xs i j) = 0"
        using dep by blast
      from Det_dependent_columns [of "Suc d" c "homogeneous d xs"] c n show False
        by blast
    qed
  qed
qed


lemma Det_bordered:
  fixes M :: "nat \<Rightarrow> nat \<Rightarrow> real" and u :: "nat \<Rightarrow> real" and p :: "nat \<Rightarrow> real"
  assumes "0 < d"
  defines "H \<equiv> (\<lambda>i j. case j of 0 \<Rightarrow> p i | Suc j' \<Rightarrow> (M(d := u)) i j')"
  shows "Det (Suc d) H
    = (- 1) ^ (d - 1) * ((\<Sum>r<d. p r * Det d (M(r := u))) - p d * Det d M)"
proof -
  let ?E = "M(d := u)"
  have m: "minor H q = (\<lambda>i. ?E (skip q i))" for q
    by (simp add: minor_def H_def fun_eq_iff)
  have "Det (Suc d) H
      = (\<Sum>q<d. (- 1) ^ q * H q 0 * Det d (minor H q)) + (- 1) ^ d * H d 0 * Det d (minor H d)"
    unfolding Det.simps(2) by simp
  moreover have "(- 1) ^ q * H q 0 * Det d (minor H q)
      = (- 1) ^ (d - 1) * (p q * Det d (M(q := u)))" if "q < d" for q
  proof -
    have "(- 1) ^ q * (- 1) ^ (d - 1 - q) = (- 1 :: real) ^ (d - 1)"
      using that by (simp flip: power_add)
    then have "(- 1) ^ q * ((- 1) ^ (d - 1 - q) * x) = (- 1 :: real) ^ (d - 1) * x" for x
      by (simp flip: mult.assoc)
    moreover have "H q 0 = p q" by (simp add: H_def)
    ultimately show ?thesis
      unfolding m Det_shift_row [OF that] by (simp add: mult.assoc mult.left_commute)
  qed
  moreover have "H d 0 = p d" by (simp add: H_def)
  moreover have "Det d (minor H d) = Det d M"
    unfolding m by (rule Det_cong) (simp add: skip_def)
  ultimately have "Det (Suc d) H = (\<Sum>q<d. (- 1) ^ (d - 1) * (p q * Det d (M(q := u))))
      + (- 1) ^ d * p d * Det d M"
    by simp
  then show ?thesis
    using assms(1) by (cases d) (simp_all add: sum_distrib_left algebra_simps)
qed

lemma faithful_det:
  assumes "has_block n m" "0 \<le> eps" "eps = 0 \<or> faithful eps n m"
  shows "fst (det eps m n) = Det n (\<lambda>r c. m ! r ! c)"
proof (cases "eps = 0 \<or> regular eps n m")
  case True
  then show ?thesis by (rule det_Det [OF assms(1,2)])
next
  case False
  then have z: "Det n (\<lambda>r c. m ! r ! c) = 0" and r: "\<not> regular eps n m"
    using assms(3) by (auto simp: faithful_def)
  have "0 < n"
  proof (rule ccontr)
    assume "\<not> 0 < n"
    then have "lup_steps eps n 0 m = []" by (simp add: lup_steps.simps)
    with r show False by (simp add: regular_def)
  qed
  from det_steps_value [OF this, of eps m] r have "fst (det eps m n) = 0"
    by (auto simp: regular_def list_all_iff)
  with z show ?thesis by simp
qed

section \<open>The value of \<open>det\<close> and the hypervolume\<close>

text \<open>
  Claim C5.  For \<open>n \<ge> 1\<close>, \<open>det\<close> on the leading \<open>n \<times> n\<close> block returns zero
  if at some elimination step the maximum absolute value over the active column at or
  below the diagonal is not strictly greater than \<open>eps\<close>; otherwise there are \<open>n\<close>
  steps and it returns \<open>(-1)\<^sup>s\<close> times the product of the selected pivot diagonal
  entries, where \<open>s\<close> is the number of steps that swapped rows.  The value depends
  on the leading \<open>n \<times> n\<close> block only, and it is the determinant of that block when
  \<open>eps\<close> is zero or no step is declared singular.
\<close>

theorem det_signed_pivot_product:
  assumes "0 < n"
  shows "fst (det eps m n)
     = (if \<exists>s \<in> set (lup_steps eps n 0 m). \<not> eps < step_max s then 0
        else (- 1) ^ length (filter step_swapped (lup_steps eps n 0 m))
               * prod_list (map step_pivot (lup_steps eps n 0 m)))
   \<and> ((\<forall>s \<in> set (lup_steps eps n 0 m). eps < step_max s)
        \<longrightarrow> length (lup_steps eps n 0 m) = n)
   \<and> lup_steps eps n 0 m \<noteq> []
   \<and> (has_block n m \<longrightarrow> fst (det eps (leading n m) n) = fst (det eps m n))
   \<and> (has_block n m \<and> 0 \<le> eps \<and> (eps = 0 \<or> regular eps n m)
        \<longrightarrow> fst (det eps m n) = Det n (\<lambda>r c. m ! r ! c))"
  using det_steps_value [OF assms, of eps m] det_leading [of n m eps] det_Det [of n m eps]
  by blast

theorem det_signed_pivot_product_witness:
  "(0::nat) < 2 \<and> fst (det 0 [[1, 2], [3, 4]] 2) = - 2
   \<and> lup_steps 0 2 0 [[1, 2], [3, 4]]
      = [\<lparr>step_max = 3, step_swapped = True, step_pivot = 3\<rparr>,
         \<lparr>step_max = 2 / 3, step_swapped = False, step_pivot = 2 / 3\<rparr>]
   \<and> has_block 2 [[1, 2], [3, 4]]
   \<and> Det 2 (\<lambda>r c. [[1, 2], [3, 4::real]] ! r ! c) = - 2"
proof -
  have l: "lup_steps 0 2 0 [[1, 2], [3, 4]]
      = [\<lparr>step_max = 3, step_swapped = True, step_pivot = 3\<rparr>,
         \<lparr>step_max = 2 / 3, step_swapped = False, step_pivot = 2 / 3\<rparr>]"
    by (simp add: lup_steps.simps column_max_def pivot_row_def swap_rows_def
        scale_column_def eliminate_def set_entry_def numeral_2_eq_2 atLeastLessThanSuc
        Let_def)
  have b: "has_block 2 [[1, 2], [3, 4]]"
    by (simp add: has_block_def less_Suc_eq numeral_2_eq_2)
  from det_signed_pivot_product [of 2 0 "[[1, 2], [3, 4]]"] b show ?thesis
    unfolding l by simp
qed

lemma difference_rows_has_block:
  assumes "length ps = d"
  shows "has_block d (difference_rows d pt ps lst)"
  using assms by (auto simp: has_block_def difference_rows_def)

lemma gram_rows_has_block: "has_block (length a) (gram_rows d a)"
  by (simp add: has_block_def gram_rows_def)

lemma det_declared_singular:
  assumes "\<not> regular eps n m"
  shows "fst (det eps m n) = 0"
proof -
  have "0 < n"
  proof (rule ccontr)
    assume "\<not> 0 < n"
    then have "lup_steps eps n 0 m = []" by (simp add: lup_steps.simps)
    with assms show False by (simp add: regular_def)
  qed
  from det_steps_value [OF this, of eps m] assms show ?thesis
    by (auto simp: regular_def list_all_iff)
qed

text \<open>
  Claim C9, as amended.  On the working matrices of a hull of dimension \<open>d\<close> and
  points of at least \<open>d\<close> coordinates: for an empty range \<open>hypervolume\<close> returns
  zero and leaves the hull as it is, whatever the coordinates of the points are; for
  a range of length \<open>r\<close> with \<open>1 \<le> r < d\<close> it returns the square root of the
  Gram determinant of the difference vectors against the last point when \<open>eps\<close> is
  zero or \<open>det\<close> declares no elimination step on the Gram matrix singular, and zero
  otherwise; and for \<open>r = d\<close> it returns the LUP determinant \<open>det\<close> of the matrix
  of those difference vectors, which is their determinant when \<open>eps\<close> is zero or no
  step is declared singular.
\<close>

theorem hypervolume_cases:
  assumes "length (matrix h) = d" and "square d (shadow_matrix h)" and "length ps \<le> d"
    and "\<forall>p \<in> set (lst # ps). d \<le> length (pt p)" and "0 \<le> eps"
  shows "(ps = [] \<longrightarrow> (\<forall>pt'. hypervolume d eps pt' ps lst h = (0, h)))
    \<and> (ps \<noteq> [] \<and> length ps < d \<longrightarrow>
         fst (hypervolume d eps pt ps lst h)
           = (if eps = 0 \<or> regular eps (length ps) (gram_rows d (difference_rows d pt ps lst))
              then sqrt (Det (length ps)
                     (\<lambda>r c. gram_rows d (difference_rows d pt ps lst) ! r ! c))
              else 0))
    \<and> (ps \<noteq> [] \<and> length ps = d \<longrightarrow>
         fst (hypervolume d eps pt ps lst h) = fst (det eps (difference_rows d pt ps lst) d)
         \<and> (eps = 0 \<or> regular eps d (difference_rows d pt ps lst)
             \<longrightarrow> fst (hypervolume d eps pt ps lst h)
               = Det d (\<lambda>r c. difference_rows d pt ps lst ! r ! c)))"
proof -
  let ?D = "difference_rows d pt ps lst"
  let ?G = "gram_rows d ?D"
  note v = hypervolume_value [OF assms(1-4), of eps]
  have g: "has_block (length ps) ?G"
    using gram_rows_has_block [of ?D d] by (simp add: difference_rows_def)
  have 1: "fst (det eps ?G (length ps))
      = (if eps = 0 \<or> regular eps (length ps) ?G
         then Det (length ps) (\<lambda>r c. ?G ! r ! c) else 0)"
    using det_Det [OF g assms(5)] det_declared_singular [of eps "length ps" ?G] by auto
  have 2: "fst (det eps ?D d) = Det d (\<lambda>r c. ?D ! r ! c)"
    if "length ps = d" "eps = 0 \<or> regular eps d ?D"
    using det_Det [OF difference_rows_has_block [OF that(1)] assms(5) that(2)] .
  have a: "ps = [] \<longrightarrow> (\<forall>pt'. hypervolume d eps pt' ps lst h = (0, h))"
    using v by blast
  have b: "ps \<noteq> [] \<and> length ps < d \<longrightarrow>
         fst (hypervolume d eps pt ps lst h)
           = (if eps = 0 \<or> regular eps (length ps) ?G
              then sqrt (Det (length ps) (\<lambda>r c. ?G ! r ! c)) else 0)"
    using v 1 by simp
  have c: "ps \<noteq> [] \<and> length ps = d \<longrightarrow>
         fst (hypervolume d eps pt ps lst h) = fst (det eps ?D d)
         \<and> (eps = 0 \<or> regular eps d ?D
             \<longrightarrow> fst (hypervolume d eps pt ps lst h) = Det d (\<lambda>r c. ?D ! r ! c))"
    using v 2 by simp
  from a b c show ?thesis by (intro conjI)
qed

lemma Det_1: "Det (Suc 0) A = A 0 0"
  by (simp add: Det.simps(2))

lemma Det_2: "Det 2 A = A 0 0 * A 1 1 - A 1 0 * A 0 1"
  by (simp add: Det.simps(2) numeral_2_eq_2 minor_def skip_def)

lemma Det_3:
  "Det 3 A = A 0 0 * (A 1 1 * A 2 2 - A 2 1 * A 1 2)
     - A 1 0 * (A 0 1 * A 2 2 - A 2 1 * A 0 2)
     + A 2 0 * (A 0 1 * A 1 2 - A 1 1 * A 0 2)"
  by (simp add: Det.simps(2) numeral_3_eq_3 numeral_2_eq_2 minor_def skip_def)

lemma affinely_independent_plane:
  "affinely_independent 2 [a, b, c] \<longleftrightarrow> Det 3 (homogeneous 2 [a, b, c]) \<noteq> 0"
  using affinely_independent_Det [of "[a, b, c]" 2] by (simp add: eval_nat_numeral)

theorem hypervolume_cases_witness:
  "length (matrix (quick_hull_init 2 :: nat quick_hull)) = 2
   \<and> square 2 (shadow_matrix (quick_hull_init 2 :: nat quick_hull))
   \<and> (0::real) \<le> 1 / 10
   \<and> difference_rows 2 (\<lambda>n. [[4, 5], [1, 1], [1, 2]] ! n) [0] 1 = [[3, 4]]
   \<and> gram_rows 2 [[3, 4]] = [[25]]
   \<and> regular (1 / 10) 1 [[25]]
   \<and> fst (hypervolume 2 (1 / 10) (\<lambda>n. [[4, 5], [1, 1], [1, 2]] ! n) [0] 1
        (quick_hull_init 2 :: nat quick_hull)) = 5
   \<and> difference_rows 2 (\<lambda>n. [[4, 5], [1, 1], [1, 2]] ! n) [2, 0] 1 = [[0, 1], [3, 4]]
   \<and> regular (1 / 10) 2 [[0, 1], [3, 4]]
   \<and> fst (hypervolume 2 (1 / 10) (\<lambda>n. [[4, 5], [1, 1], [1, 2]] ! n) [2, 0] 1
        (quick_hull_init 2 :: nat quick_hull)) = - 3
   \<and> hypervolume 2 (1 / 10) (\<lambda>n. [[4, 5], [1, 1], [1, 2]] ! n) [] 1
        (quick_hull_init 2 :: nat quick_hull) = (0, quick_hull_init 2)"
proof -
  let ?pt = "\<lambda>n. [[4, 5], [1, 1], [1, 2::real]] ! n"
  have a: "length (matrix (quick_hull_init 2 :: nat quick_hull)) = 2"
    "square 2 (shadow_matrix (quick_hull_init 2 :: nat quick_hull))"
    by (simp_all add: quick_hull_init_def square_def)
  have c: "\<forall>p \<in> set (1 # [0::nat]). 2 \<le> length (?pt p)"
    "\<forall>p \<in> set (1 # [2, 0::nat]). 2 \<le> length (?pt p)"
    "\<forall>p \<in> set (1 # ([]::nat list)). 2 \<le> length (?pt p)"
    by simp_all
  have e: "(0::real) \<le> 1 / 10" by simp
  have d: "difference_rows 2 ?pt [0] 1 = [[3, 4]]"
    "difference_rows 2 ?pt [2, 0] 1 = [[0, 1], [3, 4]]"
    "gram_rows 2 [[3, 4]] = [[25]]"
    by (simp_all add: difference_rows_def gram_rows_def upt_0_2 numeral_2_eq_2)
  have r: "regular (1 / 10) 1 [[25]]" "regular (1 / 10) 2 [[0, 1], [3, 4]]"
    by (simp_all add: regular_def lup_steps.simps column_max_def pivot_row_def swap_rows_def
        scale_column_def eliminate_def set_entry_def numeral_2_eq_2 atLeastLessThanSuc
        Let_def)
  have s: "sqrt 25 = 5"
    by (rule sqrt_25)
  from hypervolume_cases [where ps = "[0]" and lst = 1 and pt = "?pt", OF a _ c(1) e]
    hypervolume_cases [where ps = "[2, 0]" and lst = 1 and pt = "?pt", OF a _ c(2) e]
    hypervolume_cases [where ps = "[]" and lst = 1 and pt = "?pt", OF a _ c(3) e]
  show ?thesis
    using a d r s by (simp add: Det_1 Det_2)
qed

text \<open>
  The claim C9 as it was stated fails for a positive tolerance: with \<open>eps = 30\<close>,
  \<open>d = 2\<close> and the range of the one point \<open>(3, 4)\<close> against the origin
  \<open>(0, 0)\<close>, the Gram matrix is \<open>(25)\<close>, its determinant \<open>25\<close> is not above
  \<open>eps\<close> and is declared singular, and \<open>hypervolume\<close> returns \<open>0\<close>, not
  \<open>5\<close>.
\<close>

theorem hypervolume_declared_singular:
  "fst (hypervolume 2 30 (\<lambda>n. [[3, 4], [0, 0]] ! n) [0::nat] 1 (quick_hull_init 2)) = 0
   \<and> gram_rows 2 (difference_rows 2 (\<lambda>n. [[3, 4], [0, 0]] ! n) [0::nat] 1) = [[25]]
   \<and> sqrt (Det 1 (\<lambda>r c. [[25::real]] ! r ! c)) = 5"
  by (simp add: hypervolume_def load_differences_def matrix_sqr_def copy_point_def vsub_def
      set_entry_def quick_hull_init_def det_def det_loop.simps find_pivot_def
      difference_rows_def gram_rows_def upt_0_2 numeral_2_eq_2 Det_1 sqrt_25 Let_def)





section \<open>The hyperplane fit\<close>

lemma normal_loop_spec:
  fixes eps :: real and d :: nat and s :: matrix
  assumes "has_block d s" "has_block d m0" "length nrm0 = d"
  defines "n \<equiv> \<lambda>i. fst (det eps ((leading d s)[i := replicate d 1]) d)"
  shows "\<exists>m. normal_loop d eps s (nrm0, 0, m0) = (map n [0..<d], (\<Sum>i<d. n i * n i), m)"
proof -
  let ?g = "\<lambda>i (nrm, N, m). case det eps (matrix_restore d i m s) d of
               (x, m') \<Rightarrow> (nrm[i := x], N + x * x, m')"
  have "\<exists>m. fold ?g [0..<k] (nrm0, 0, m0)
        = (map n [0..<k] @ drop k nrm0, (\<Sum>i<k. n i * n i), m) \<and> has_block d m"
    if "k \<le> d" for k
    using that
  proof (induction k)
    case 0
    then show ?case using assms(2) by simp
  next
    case (Suc k)
    then obtain m where m: "fold ?g [0..<k] (nrm0, 0, m0)
        = (map n [0..<k] @ drop k nrm0, (\<Sum>i<k. n i * n i), m)" "has_block d m"
      by auto
    have k: "k < d" using Suc.prems by simp
    note r = matrix_restore_leading [OF m(2) assms(1) k]
    obtain x m' where x: "det eps (matrix_restore d k m s) d = (x, m')"
      by (cases "det eps (matrix_restore d k m s) d")
    have "x = n k"
      using det_leading [OF r(1), of eps] x r(2) by (simp add: n_def)
    moreover have "has_block d m'"
      using det_has_block [OF r(1), of eps] x by simp
    moreover have "(map n [0..<k] @ drop k nrm0)[k := y] = map n [0..<k] @ y # drop (Suc k) nrm0"
      for y
      using k assms(3) by (simp add: list_update_append Cons_nth_drop_Suc [symmetric])
    ultimately show ?case
      using m(1) x by simp
  qed
  from this [of d] assms(3) show ?thesis
    by (auto simp: normal_loop_def)
qed

lemma sum_list_upt: "sum_list (map f [0..<d]) = (\<Sum>i<d. f i)" for f :: "nat \<Rightarrow> real"
  by (induction d) simp_all

lemma vertex_columns_transpose:
  assumes "length vs = d" "\<forall>v \<in> set vs. d \<le> length (pt v)" "length s = d"
  shows "has_block d (matrix_transpose d (load_vertices d pt vs s))"
    and "leading d (matrix_transpose d (load_vertices d pt vs s)) = vertex_columns d pt vs"
proof -
  let ?s0 = "map (copy_point d pt) vs"
  have s0: "load_vertices d pt vs s = ?s0"
    by (rule load_vertices_rows [OF assms(3) assms(1)])
  have b0: "has_block d ?s0"
    using assms(1,2) by (simp add: has_block_def copy_point_def)
  note t = matrix_transpose_entry [OF b0]
  show b: "has_block d (matrix_transpose d (load_vertices d pt vs s))"
    unfolding s0 by (rule t(1))
  have e: "matrix_transpose d ?s0 ! i ! j = pt (vs ! j) ! i" if "i < d" "j < d" for i j
    using t(2) [OF that] that assms(1) by (simp add: copy_point_def)
  have l: "d \<le> length (matrix_transpose d ?s0)"
    "\<And>i. i < d \<Longrightarrow> d \<le> length (matrix_transpose d ?s0 ! i)"
    using t(1) by (simp_all add: has_block_def)
  show "leading d (matrix_transpose d (load_vertices d pt vs s)) = vertex_columns d pt vs"
    unfolding s0 leading_def vertex_columns_def
  proof (rule nth_equalityI)
    show "length (map (take d) (take d (matrix_transpose d ?s0)))
        = length (map (\<lambda>i. map (\<lambda>v. pt v ! i) vs) [0..<d])"
      using l(1) by simp
  next
    fix i assume "i < length (map (take d) (take d (matrix_transpose d ?s0)))"
    then have i: "i < d" by simp
    have "take d (matrix_transpose d ?s0 ! i) = map (\<lambda>v. pt v ! i) vs"
      by (rule nth_equalityI) (use l(2) [OF i] assms(1) e [OF i] in simp_all)
    then show "map (take d) (take d (matrix_transpose d ?s0)) ! i
        = map (\<lambda>i. map (\<lambda>v. pt v ! i) vs) [0..<d] ! i"
      using i l(1) by simp
  qed
qed

lemma homogeneous_bordered:
  assumes "length vs = d" "\<forall>v \<in> set vs. d \<le> length (pt v)"
  shows "Det (Suc d) (homogeneous d (ip # map pt vs))
    = Det (Suc d) (\<lambda>i j. case j of 0 \<Rightarrow> (if i < d then ip ! i else 1)
         | Suc j' \<Rightarrow> ((\<lambda>r c. vertex_columns d pt vs ! r ! c)(d := (\<lambda>_. 1))) i j')"
proof (rule Det_cong)
  fix i j assume "i < Suc d" "j < Suc d"
  then show "homogeneous d (ip # map pt vs) i j
      = (case j of 0 \<Rightarrow> (if i < d then ip ! i else 1)
         | Suc j' \<Rightarrow> ((\<lambda>r c. vertex_columns d pt vs ! r ! c)(d := (\<lambda>_. 1))) i j')"
    using assms(1) by (cases j) (auto simp: homogeneous_def vertex_columns_def)
qed

text \<open>
  Claim C1, as amended.  Let the facet have \<open>d\<close> vertices that, together with the
  interior reference point \<open>ip\<close>, are affinely independent, and let \<open>eps\<close> be
  zero, or let \<open>det\<close> declare singular none of the \<open>d + 1\<close> matrices of the fit
  whose determinant is not zero.  Then \<open>set_hyperplane_equation\<close> produces a normal
  of Euclidean norm \<open>1\<close> and an offset such that normal \<open>\<cdot>\<close> \<open>v\<close> plus offset,
  which is what \<open>facet::distance\<close> computes, is \<open>0\<close> for each vertex \<open>v\<close> of
  the facet.  The interior point is strictly on the negative side, as the closing
  assertion of the routine demands, exactly when the determinant of the homogeneous
  coordinates of the interior point and the vertices has the sign of \<open>(-1)\<^sup>d\<close>.
\<close>

theorem set_hyperplane_equation_fit:
  assumes "0 \<le> eps" and "0 < d" and "length (vertices fc) = d"
    and "\<forall>v \<in> set (vertices fc). d \<le> length (pt v)" and "d \<le> length ip"
    and "length (normal fc) = d" and "length s = d"
    and "affinely_independent d (ip # map pt (vertices fc))"
    and "eps = 0 \<or> (faithful eps d (vertex_columns d pt (vertices fc))
           \<and> (\<forall>i<d. faithful eps d ((vertex_columns d pt (vertices fc))[i := replicate d 1])))"
  shows "\<exists>fc' m' s'. set_hyperplane_equation d eps pt fc m s = (fc', m', s')
    \<and> length (normal fc') = d \<and> euclidean_norm (normal fc') = 1
    \<and> (\<forall>v \<in> set (vertices fc).
          (\<Sum>i<d. normal fc' ! i * pt v ! i) + D fc' = 0 \<and> distance fc' (pt v) = 0)
    \<and> distance fc' ip = (\<Sum>i<d. normal fc' ! i * ip ! i) + D fc'
    \<and> (distance fc' ip < 0
         \<longleftrightarrow> (- 1) ^ (d - 1) * Det (Suc d) (homogeneous d (ip # map pt (vertices fc))) < 0)"
proof -
  let ?vs = "vertices fc"
  let ?vc = "vertex_columns d pt ?vs"
  let ?s1 = "matrix_transpose d (load_vertices d pt ?vs s)"
  let ?M = "\<lambda>r c. ?vc ! r ! c"
  let ?H = "Det (Suc d) (homogeneous d (ip # map pt ?vs))"
  define n where "n = (\<lambda>i. fst (det eps (?vc[i := replicate d 1]) d))"
  define N where "N = (\<Sum>i<d. n i * n i)"
  note vt = vertex_columns_transpose [OF assms(3,4,7)]
  obtain dt m1 where dt: "det eps ?s1 d = (dt, m1)"
    by (cases "det eps ?s1 d")
  have b1: "has_block d m1"
    using det_has_block [OF vt(1), of eps] dt by simp
  have bvc: "has_block d ?vc"
    using has_block_leading [OF vt(1)] vt(2) by simp
  have dt_vc: "dt = fst (det eps ?vc d)"
    using det_leading [OF vt(1), of eps] dt vt(2) by simp
  from normal_loop_spec [OF vt(1) b1 assms(6), of eps]
  obtain m2 where nl: "normal_loop d eps ?s1 (normal fc, 0, m1) = (map n [0..<d], N, m2)"
    unfolding vt(2) n_def N_def by blast
  let ?fc = "fc\<lparr>normal := map (\<lambda>x. x / sqrt N) (map n [0..<d]), D := (- dt) / sqrt N\<rparr>"
  have r: "set_hyperplane_equation d eps pt fc m s = (?fc, m2, ?s1)"
    using dt nl by (simp add: set_hyperplane_equation_def Let_def)
  have dtD: "dt = Det d ?M"
    unfolding dt_vc using assms(9) by (intro faithful_det [OF bvc assms(1)]) auto
  have nD: "n i = Det d (?M(i := (\<lambda>_. 1)))" if i: "i < d" for i
  proof -
    have il: "i < length ?vc"
      using bvc i by (simp add: has_block_def)
    have b: "has_block d (?vc[i := replicate d 1])"
      using bvc il by (auto simp: has_block_def nth_list_update)
    have "n i = Det d (\<lambda>r c. ?vc[i := replicate d 1] ! r ! c)"
      unfolding n_def using assms(9) i by (intro faithful_det [OF b assms(1)]) auto
    also have "\<dots> = Det d (?M(i := (\<lambda>_. 1)))"
      by (rule Det_cong) (use il in \<open>auto simp: nth_list_update\<close>)
    finally show ?thesis .
  qed
  have cramer: "(\<Sum>i<d. ?M i k * n i) = dt" if "k < d" for k
    using Det_cramer [OF that, of ?M "\<lambda>_. 1"] nD dtD by simp
  have H: "?H = (- 1) ^ (d - 1) * ((\<Sum>i<d. ip ! i * n i) - dt)"
  proof -
    have "(\<Sum>i<d. (if i < d then ip ! i else 1) * Det d (?M(i := (\<lambda>_. 1))))
        = (\<Sum>i<d. ip ! i * n i)"
      by (rule sum.cong) (simp_all add: nD)
    then show ?thesis
      unfolding homogeneous_bordered [OF assms(3,4)]
        Det_bordered [OF assms(2), of "\<lambda>i. if i < d then ip ! i else 1" ?M "\<lambda>_. 1"]
      by (simp add: dtD)
  qed
  have Hn: "?H \<noteq> 0"
    using assms(8) affinely_independent_Det [of "ip # map pt ?vs" d] assms(3) by simp
  have Npos: "0 < N"
  proof -
    have "\<exists>i<d. n i \<noteq> 0"
    proof (rule ccontr)
      assume "\<not> ?thesis"
      then have z: "\<And>i. i < d \<Longrightarrow> n i = 0" by auto
      then have "dt = 0" using cramer [OF assms(2)] by simp
      with z H Hn show False by simp
    qed
    then obtain i where i: "i < d" "n i \<noteq> 0" by auto
    have "0 < n i * n i" using i(2) by (auto simp: zero_less_mult_iff)
    then show ?thesis
      unfolding N_def using i(1) by (intro sum_pos2 [of _ i]) simp_all
  qed
  then have sq: "sqrt N * sqrt N = N" "sqrt N \<noteq> 0" "0 < sqrt N"
    by simp_all
  have norm: "euclidean_norm (normal ?fc) = 1"
  proof -
    have "sum_list (map (\<lambda>a. a * a) (normal ?fc)) = (\<Sum>i<d. n i / sqrt N * (n i / sqrt N))"
      by (simp add: comp_def sum_list_upt)
    also have "\<dots> = (\<Sum>i<d. n i * n i / N)"
      using sq(1) by simp
    also have "\<dots> = N / N"
      by (simp only: N_def sum_divide_distrib)
    also have "\<dots> = 1" using Npos by simp
    finally show ?thesis by (simp add: euclidean_norm_def)
  qed
  have at: "distance ?fc x = ((\<Sum>i<d. x ! i * n i) - dt) / sqrt N" if "d \<le> length x" for x
  proof -
    have len: "length (map (\<lambda>x. x / sqrt N) (map n [0..<d])) \<le> length x"
      using that by simp
    have "distance ?fc x = - dt / sqrt N + (\<Sum>i<d. n i / sqrt N * x ! i)"
      using inner_product_sum [OF len, of "- dt / sqrt N"] by (simp add: distance_def)
    also have "(\<Sum>i<d. n i / sqrt N * x ! i) = (\<Sum>i<d. x ! i * n i) / sqrt N"
      unfolding sum_divide_distrib by (rule sum.cong) simp_all
    finally show ?thesis by (simp add: diff_divide_distrib)
  qed
  have dot: "(\<Sum>i<d. normal ?fc ! i * x ! i) + D ?fc = distance ?fc x" if "d \<le> length x" for x
  proof -
    have "(\<Sum>i<d. normal ?fc ! i * x ! i) = (\<Sum>i<d. x ! i * n i) / sqrt N"
      unfolding sum_divide_distrib by (rule sum.cong) simp_all
    then show ?thesis
      using at [OF that] by (simp add: diff_divide_distrib)
  qed
  have len: "length (normal ?fc) = d"
    by simp
  have dist: "distance ?fc (pt v) = 0" if "v \<in> set ?vs" for v
  proof -
    from that obtain k where k: "k < d" "v = ?vs ! k"
      using assms(3) by (auto simp: in_set_conv_nth)
    have M: "pt v ! i = ?M i k" if "i < d" for i
      using that k assms(3) by (simp add: vertex_columns_def)
    have "(\<Sum>i<d. pt v ! i * n i) = (\<Sum>i<d. ?M i k * n i)"
      by (rule sum.cong) (simp_all add: M)
    then show ?thesis
      using at [of "pt v"] assms(4) that cramer [OF k(1)] by simp
  qed
  have side: "distance ?fc ip < 0 \<longleftrightarrow> (- 1) ^ (d - 1) * ?H < 0"
  proof -
    have "(- 1) ^ (d - 1) * ?H = (\<Sum>i<d. ip ! i * n i) - dt"
      unfolding H by (simp flip: mult.assoc power_add) 
    then show ?thesis
      using at [OF assms(5)] sq(3) by (simp add: divide_less_0_iff)
  qed
  have dist': "(\<Sum>i<d. normal ?fc ! i * pt v ! i) + D ?fc = 0 \<and> distance ?fc (pt v) = 0"
    if "v \<in> set ?vs" for v
    using dist [OF that] dot [of "pt v"] assms(4) that by simp
  show ?thesis
    unfolding r using len norm dist' dot [OF assms(5)] side
    by (intro exI conjI ballI) (rule refl, simp_all)
qed

theorem set_hyperplane_equation_fit_witness:
  "(0::real) \<le> 1 / 10 \<and> (0::nat) < 2
   \<and> affinely_independent 2 [[0, 0], [1, 0], [1, 1]]
   \<and> vertex_columns 2 (\<lambda>n. [[1, 0], [1, 1]] ! n) [0::nat, 1] = [[1, 1], [0, 1]]
   \<and> regular (1 / 10) 2 [[1, 1], [0, 1]]
   \<and> regular (1 / 10) 2 ([[1, 1], [0, 1]][0 := replicate 2 1])
   \<and> \<not> regular (1 / 10) 2 ([[1, 1], [0, 1]][1 := replicate 2 1])
   \<and> Det 2 (\<lambda>r c. [[1, 1], [0, 1]][1 := replicate 2 (1::real)] ! r ! c) = 0
   \<and> fst (set_hyperplane_equation 2 (1 / 10) (\<lambda>n. [[1, 0], [1, 1]] ! n)
        \<lparr>vertices = [0::nat, 1], neighbours = [1, 2], outside = [], coplanar = [],
          normal = [0, 0], D = 0\<rparr> [[0, 0], [0, 0]] [[0, 0], [0, 0]])
      = \<lparr>vertices = [0::nat, 1], neighbours = [1, 2], outside = [], coplanar = [],
          normal = [1, 0], D = - 1\<rparr>
   \<and> euclidean_norm [1, 0] = 1
   \<and> distance \<lparr>vertices = [0::nat, 1], neighbours = [1, 2], outside = [], coplanar = [],
          normal = [1, 0], D = - 1\<rparr> [1, 0] = 0
   \<and> distance \<lparr>vertices = [0::nat, 1], neighbours = [1, 2], outside = [], coplanar = [],
          normal = [1, 0], D = - 1\<rparr> [1, 1] = 0
   \<and> distance \<lparr>vertices = [0::nat, 1], neighbours = [1, 2], outside = [], coplanar = [],
          normal = [1, 0], D = - 1\<rparr> [0, 0] < 0
   \<and> Det 3 (homogeneous 2 [[0, 0], [1, 0], [1, 1]]) = 1"
proof -
  let ?pt = "\<lambda>n. [[1, 0], [1, 1::real]] ! n"
  let ?fc = "\<lparr>vertices = [0::nat, 1], neighbours = [1, 2], outside = [], coplanar = [],
          normal = [0, 0], D = 0\<rparr>"
  have H: "Det 3 (homogeneous 2 [[0, 0], [1, 0], [1, 1]]) = 1"
    by (simp add: Det_3 homogeneous_def)
  have i: "affinely_independent 2 [[0, 0], [1, 0], [1, 1]]"
    unfolding affinely_independent_plane H by simp
  have vc: "vertex_columns 2 ?pt [0::nat, 1] = [[1, 1], [0, 1]]"
    by (simp add: vertex_columns_def upt_0_2)
  have r: "regular (1 / 10) 2 [[1, 1], [0, 1]]"
    "regular (1 / 10) 2 ([[1, 1], [0, 1]][0 := replicate 2 1])"
    "\<not> regular (1 / 10) 2 ([[1, 1], [0, 1]][1 := replicate 2 1])"
    by (simp_all add: regular_def lup_steps.simps column_max_def pivot_row_def swap_rows_def
        scale_column_def eliminate_def set_entry_def numeral_2_eq_2 atLeastLessThanSuc
        Let_def)
  have z: "Det 2 (\<lambda>r c. [[1, 1], [0, 1]][1 := replicate 2 (1::real)] ! r ! c) = 0"
    by (simp add: Det_2)
  have f: "(1 / 10 :: real) = 0 \<or> (faithful (1 / 10) 2 (vertex_columns 2 ?pt (vertices ?fc))
      \<and> (\<forall>i<2. faithful (1 / 10) 2 ((vertex_columns 2 ?pt (vertices ?fc))[i := replicate 2 1])))"
    using r z vc by (simp add: faithful_def All_less_Suc numeral_2_eq_2)
  have e: "fst (set_hyperplane_equation 2 (1 / 10) ?pt ?fc [[0, 0], [0, 0]] [[0, 0], [0, 0]])
      = \<lparr>vertices = [0::nat, 1], neighbours = [1, 2], outside = [], coplanar = [],
          normal = [1, 0], D = - 1\<rparr>"
    by (simp add: set_hyperplane_equation_def load_vertices_def matrix_transpose_def
        swap_entries_def normal_loop_def matrix_restore_def copy_point_def
        det_def det_loop.simps find_pivot_def swap_rows_def scale_column_def
        eliminate_def set_entry_def Let_def numeral_2_eq_2)
  have a: "affinely_independent 2 ([0, 0] # map ?pt (vertices ?fc))"
    using i by simp
  from set_hyperplane_equation_fit [where eps = "1 / 10" and d = 2 and fc = "?fc"
      and pt = "?pt" and ip = "[0, 0]" and s = "[[0, 0], [0, 0]]" and m = "[[0, 0], [0, 0]]",
      OF _ _ _ _ _ _ _ a f]
  show ?thesis
    using i vc r z e H
    by (auto simp: euclidean_norm_def distance_def)
qed

text \<open>
  The claim C1 as it was stated fails for a positive tolerance: with \<open>eps = 1/2\<close>
  and the vertices \<open>(1, 0)\<close> and \<open>(0, 1/4)\<close>, which are affinely independent of the
  inner point \<open>(0, 0)\<close>, two of the three determinants are declared singular though
  they are \<open>1/4\<close> and \<open>-1/4\<close>, the fitted hyperplane is \<open>y = 0\<close>, and the
  second vertex is at distance \<open>1/4\<close>.
\<close>

theorem fit_misses_vertex:
  "affinely_independent 2 [[0, 0], [1, 0], [0, 1 / 4]]
   \<and> fst (set_hyperplane_equation 2 (1 / 2) (\<lambda>n. [[1, 0], [0, 1 / 4]] ! n)
        \<lparr>vertices = [0::nat, 1], neighbours = [1, 2], outside = [], coplanar = [],
          normal = [0, 0], D = 0\<rparr> [[0, 0], [0, 0]] [[0, 0], [0, 0]])
      = \<lparr>vertices = [0::nat, 1], neighbours = [1, 2], outside = [], coplanar = [],
          normal = [0, 1], D = 0\<rparr>
   \<and> distance \<lparr>vertices = [0::nat, 1], neighbours = [1, 2], outside = [], coplanar = [],
        normal = [0, 1], D = 0\<rparr> ((\<lambda>n. [[1, 0], [0, 1 / 4]] ! n) 1) = 1 / 4"
proof -
  have "affinely_independent 2 [[0, 0], [1, 0], [0, 1 / 4]]"
    by (simp add: affinely_independent_plane Det_3 homogeneous_def)
  then show ?thesis
    by (simp add: set_hyperplane_equation_def load_vertices_def matrix_transpose_def
        swap_entries_def normal_loop_def matrix_restore_def copy_point_def
        det_def det_loop.simps find_pivot_def swap_rows_def scale_column_def
        eliminate_def set_entry_def Let_def distance_def numeral_2_eq_2)
qed

end
